theory Spec2Isabelle
  imports Complex_Main
begin

section \<open>The remuxer of L-SMASH: a shallow embedding of remuxer.c\<close>

text \<open>
  The program merges the tracks of several input movies into one output movie. The
  definitions below follow \<^verbatim>\<open>remuxer.c\<close> function by function. The container
  library behind \<^verbatim>\<open>lsmash.h\<close> is not part of that file: its calls are parameters of
  the model.

  Unsigned 32-bit quantities (\<^verbatim>\<open>uint32_t\<close>) are natural numbers; the increments and
  decrements of the scheduler loop are written with their wrap-around.
\<close>

subsection \<open>Brand selection: \<^verbatim>\<open>set_movie_parameters\<close>\<close>

text \<open>
  A brand (\<^verbatim>\<open>lsmash_brand_type\<close>) is a four-character code held in an unsigned
  32-bit integer. The pair \<^verbatim>\<open>brands\<close>, \<^verbatim>\<open>number_of_brands\<close> of the library's structure
  is one list.
\<close>

record lsmash_movie_parameters_t =
  major_brand :: nat
  minor_version :: nat
  brands :: "nat list"
  number_of_tracks :: nat

text \<open>
  The inner loop of the major brand count (lines 178-191), for the candidate \<open>k\<close> taken
  from input \<open>i\<close>: \<open>j\<close> runs over the inputs still to compare, \<open>c\<close> is
  \<^verbatim>\<open>major_brand_count[num_major_brand]\<close>. The result \<open>None\<close> is the \<^verbatim>\<open>break\<close> taken
  when an earlier input already has this brand.
\<close>

fun count_major_brand :: "nat \<Rightarrow> nat \<times> nat \<Rightarrow> nat \<Rightarrow> (nat \<times> nat) list \<Rightarrow> nat \<Rightarrow> nat option" where
  "count_major_brand i k j [] c = Some c"
| "count_major_brand i k j (x # xs) c =
     (if k = x then
        (if i \<le> j then count_major_brand i k (Suc j) xs (Suc c) else None)
      else count_major_brand i k (Suc j) xs c)"

text \<open>
  The outer loop (lines 173-193). \<open>todo\<close> holds the inputs from index \<open>i\<close> on, \<open>inputs\<close>
  all of them, and \<open>found\<close> the entries \<open>0 ..< num_major_brand\<close> of the three arrays
  \<^verbatim>\<open>major_brand\<close>, \<^verbatim>\<open>minor_version\<close>, \<^verbatim>\<open>major_brand_count\<close>. A skipped candidate
  leaves \<^verbatim>\<open>num_major_brand\<close> as it was (decremented, then incremented).
\<close>

fun collect_major_brands ::
  "nat \<Rightarrow> (nat \<times> nat) list \<Rightarrow> (nat \<times> nat) list \<Rightarrow> ((nat \<times> nat) \<times> nat) list \<Rightarrow> ((nat \<times> nat) \<times> nat) list" where
  "collect_major_brands i [] inputs found = found"
| "collect_major_brands i (x # todo) inputs found =
     (case count_major_brand i x 0 inputs 0 of
        None \<Rightarrow> collect_major_brands (Suc i) todo inputs found
      | Some c \<Rightarrow> collect_major_brands (Suc i) todo inputs (found @ [(x, c)]))"

text \<open>
  The choice of the most used brand (lines 194-201): \<open>most\<close> is \<^verbatim>\<open>most_used_count\<close>, \<open>out\<close>
  the pair written to the output's parameters so far.
\<close>

fun pick_most_used :: "((nat \<times> nat) \<times> nat) list \<Rightarrow> nat \<Rightarrow> nat \<times> nat \<Rightarrow> nat \<times> nat" where
  "pick_most_used [] most out = out"
| "pick_most_used ((k, c) # rest) most out =
     (if c > most then pick_most_used rest c k else pick_most_used rest most out)"

text \<open>
  The compatible brands (lines 203-226): all brands of all inputs in order, then the loop
  that copies a brand to \<^verbatim>\<open>output_brands\<close> unless it is zero or already there. \<open>out\<close>
  holds the entries \<open>0 ..< num_output_brands\<close>.
\<close>

definition gather_input_brands :: "lsmash_movie_parameters_t list \<Rightarrow> nat list" where
  "gather_input_brands params = concat (map brands params)"

fun dedup_brands :: "nat list \<Rightarrow> nat list \<Rightarrow> nat list" where
  "dedup_brands [] out = out"
| "dedup_brands (b # bs) out =
     (if b = 0 then dedup_brands bs out
      else if b \<in> set out then dedup_brands bs out
      else dedup_brands bs (out @ [b]))"

text \<open>
  The parameters handed to \<^verbatim>\<open>lsmash_set_movie_parameters\<close>. \<open>initial\<close> is what
  \<^verbatim>\<open>lsmash_initialize_movie_parameters\<close> leaves in the structure.
\<close>

definition brand_key :: "lsmash_movie_parameters_t \<Rightarrow> nat \<times> nat" where
  "brand_key p = (major_brand p, minor_version p)"

definition output_movie_parameters ::
  "lsmash_movie_parameters_t \<Rightarrow> lsmash_movie_parameters_t list \<Rightarrow> lsmash_movie_parameters_t" where
  "output_movie_parameters initial params =
     (let keys = map brand_key params;
          found = collect_major_brands 0 keys keys [];
          best = pick_most_used found 0 (brand_key initial)
      in initial\<lparr> major_brand := fst best, minor_version := snd best,
                  brands := dedup_brands (gather_input_brands params) [] \<rparr>)"


subsection \<open>C strings\<close>

text \<open>
  A C string is the list of its characters before the terminating NUL. \<^verbatim>\<open>strchr\<close> and
  \<^verbatim>\<open>strrchr\<close> return the offset of the first and of the last occurrence, \<open>None\<close> for
  the null pointer; \<^verbatim>\<open>strstr\<close> likewise for a substring.
\<close>

definition strchr :: "string \<Rightarrow> char \<Rightarrow> nat option" where
  "strchr s c = (if c \<in> set s then Some (length (takeWhile (\<lambda>x. x \<noteq> c) s)) else None)"

definition strrchr :: "string \<Rightarrow> char \<Rightarrow> nat option" where
  "strrchr s c =
     (if c \<in> set s then Some (length s - 1 - length (takeWhile (\<lambda>x. x \<noteq> c) (rev s))) else None)"

fun strstr :: "string \<Rightarrow> string \<Rightarrow> nat option" where
  "strstr [] needle = (if needle = [] then Some 0 else None)"
| "strstr (c # cs) needle =
     (if take (length needle) (c # cs) = needle then Some 0
      else map_option Suc (strstr cs needle))"

text \<open>
  \<^verbatim>\<open>strtok\<close> keeps the place to continue from in a static variable; here that place is
  the text still to scan, handed in and out. \<open>strtok s delim\<close> is the call on the text
  \<open>s\<close> (for \<^verbatim>\<open>strtok( NULL, delim )\<close> the text saved by the call before): the token
  found, if any, and the text to save.
\<close>

definition strtok :: "string \<Rightarrow> string \<Rightarrow> string option \<times> string" where
  "strtok s delim =
     (let t = dropWhile (\<lambda>c. c \<in> set delim) s
      in if t = [] then (None, [])
         else (Some (takeWhile (\<lambda>c. c \<notin> set delim) t),
               drop 1 (dropWhile (\<lambda>c. c \<notin> set delim) t)))"

text \<open>
  \<^verbatim>\<open>atoi\<close>: white space, an optional sign, decimal digits. The value is the
  mathematical one; C leaves the result undefined when it does not fit an \<^verbatim>\<open>int\<close>.
\<close>

definition isspace :: "char \<Rightarrow> bool" where
  "isspace c = (c \<in> set [CHR '' '', CHR 0x09, CHR 0x0A, CHR 0x0B, CHR 0x0C, CHR 0x0D])"

definition isdigit :: "char \<Rightarrow> bool" where
  "isdigit c = ((48 :: nat) \<le> of_char c \<and> of_char c \<le> (57 :: nat))"

fun atoi_digits :: "string \<Rightarrow> int \<Rightarrow> int" where
  "atoi_digits [] acc = acc"
| "atoi_digits (c # cs) acc =
     (if isdigit c then atoi_digits cs (10 * acc + (of_char c - 48)) else acc)"

definition atoi :: "string \<Rightarrow> int" where
  "atoi s =
     (case dropWhile isspace s of
        [] \<Rightarrow> 0
      | c # cs \<Rightarrow>
          if c = CHR ''-'' then - atoi_digits cs 0
          else if c = CHR ''+'' then atoi_digits cs 0
          else atoi_digits (c # cs) 0)"

definition tolower :: "char \<Rightarrow> char" where
  "tolower c =
     (if (65 :: nat) \<le> of_char c \<and> of_char c \<le> (90 :: nat) then char_of (of_char c + (32 :: nat))
      else c)"

text \<open>\<open>strcasecmp_eq a b\<close> stands for \<^verbatim>\<open>!strcasecmp( a, b )\<close>.\<close>

definition strcasecmp_eq :: "string \<Rightarrow> string \<Rightarrow> bool" where
  "strcasecmp_eq a b = (map tolower a = map tolower b)"

subsection \<open>Conversions between the integer types\<close>

definition to_uint32 :: "int \<Rightarrow> nat" where
  "to_uint32 v = nat (v mod 2 ^ 32)"

definition to_int16 :: "int \<Rightarrow> int" where
  "to_int16 v = (v + 2 ^ 15) mod 2 ^ 16 - 2 ^ 15"

definition uint32_inc :: "nat \<Rightarrow> nat" where
  "uint32_inc n = (n + 1) mod 2 ^ 32"

definition uint32_dec :: "nat \<Rightarrow> nat" where
  "uint32_dec n = (n + 2 ^ 32 - 1) mod 2 ^ 32"

definition uint32_add :: "nat \<Rightarrow> nat \<Rightarrow> nat" where
  "uint32_add m n = (m + n) mod 2 ^ 32"


subsection \<open>The data of the program\<close>

text \<open>
  Of the library's parameter structures the model keeps the fields the program reads or
  writes, with the structure's initial letters in front where two structures share a
  field name. A pointer that may be null is an \<open>option\<close>; an array is a list.
\<close>

record lsmash_track_parameters_t =
  tp_track_ID :: nat
  tp_alternate_group :: int

record lsmash_media_parameters_t =
  handler_type :: nat
  timescale :: nat
  mp_ISO_language :: nat

record track_t =
  track_ID :: nat
  last_sample_delta :: nat
  current_sample_number :: nat
  reach_end_of_media_timeline :: bool
  track_param :: lsmash_track_parameters_t
  media_param :: lsmash_media_parameters_t

record ('r, 'm) movie_t =
  root :: "'r option"
  itunes_meta_list :: "'m option"
  track :: "track_t list"
  movie_param :: lsmash_movie_parameters_t
  num_tracks :: nat
  current_track_number :: nat

record track_media_option =
  raw_track_option :: "string option"
  alternate_group :: int
  ISO_language :: nat

record file_option =
  whole_track_option :: "string option"
  num_track_delimiter :: nat

text \<open>
  What the program reports before it gives up: one constructor for each message it
  prints, with the text or number the message shows. The last three stand for
  executions whose behaviour C does not define: a null pointer handed to a string
  function, a read outside an array, a read of a variable never written.
\<close>

datatype failure =
    Standard_input_not_supported
  | Failed_to_open_input_file
  | Failed_to_alloc_input_tracks
  | Failed_to_get_track_ID
  | Failed_to_get_iTunes_metadata
  | Failed_to_get_track_parameters
  | Failed_to_get_media_parameters
  | Failed_to_construct_timeline
  | Failed_to_get_the_last_sample_delta
  | Track_number_is_not_specified string
  | Multiple_colons string
  | Invalid_track_number_text string
  | Invalid_track_number nat
  | Multiple_equal_signs string
  | Unknown_track_option string
  | Requires_an_argument string
  | Failed_to_get_input_movie
  | Could_not_allocate_memory
  | Unknown_option_found string
  | More_track_options_than_tracks nat
  | Failed_to_parse_track_options
  | No_input_file_specified
  | Failed_to_parse_command_line_options
  | Failed_to_open_output_movie
  | Failed_to_set_output_movie_parameters
  | Failed_to_set_iTunes_metadata
  | Failed_to_alloc_output_tracks
  | Failed_to_create_a_track
  | Failed_to_set_track_parameters
  | Failed_to_set_media_parameters
  | Failed_to_copy_a_Decoder_Specific_Info
  | Failed_to_get_the_DTS
  | Failed_to_get_sample
  | Failed_to_append_a_sample
  | Failed_to_flush_samples
  | Failed_to_copy_a_timeline_map
  | Failed_to_finish_output_movie
  | Null_pointer
  | Out_of_bounds
  | Uninitialised

subsection \<open>The container library\<close>

text \<open>
  The functions of \<^verbatim>\<open>lsmash.h\<close> that the program calls, as parameters. \<open>'r\<close> is the
  state behind a root handle, \<open>'m\<close> a metadata list, \<open>'s\<close> a sample and \<open>'t\<close> the values
  of \<^verbatim>\<open>double\<close>. A call that reports failure by its return value yields \<open>None\<close>
  (\<^verbatim>\<open>lsmash_create_track\<close> and \<^verbatim>\<open>lsmash_get_track_ID\<close> report it by the identifier 0,
  \<^verbatim>\<open>lsmash_check_sample_existence_in_media_timeline\<close> answers a question). A call that
  changes the file behind the handle yields the new state. \<open>seconds d ts\<close> is the
  \<^verbatim>\<open>double\<close> that \<^verbatim>\<open>(double)dts / input_media_timescale\<close> computes, and \<open>malloc n\<close> tells
  whether an allocation of \<open>n\<close> array cells succeeds.
\<close>

datatype lsmash_file_mode = LSMASH_FILE_MODE_READ | LSMASH_FILE_MODE_WRITE

record ('r, 'm, 's, 't) lsmash =
  lsmash_open_movie :: "string \<Rightarrow> lsmash_file_mode \<Rightarrow> 'r option"
  lsmash_initialize_movie_parameters :: lsmash_movie_parameters_t
  lsmash_get_movie_parameters :: "'r \<Rightarrow> lsmash_movie_parameters_t"
  lsmash_get_track_ID :: "'r \<Rightarrow> nat \<Rightarrow> nat"
  lsmash_export_itunes_metadata :: "'r \<Rightarrow> 'm option"
  lsmash_get_track_parameters :: "'r \<Rightarrow> nat \<Rightarrow> lsmash_track_parameters_t option"
  lsmash_get_media_parameters :: "'r \<Rightarrow> nat \<Rightarrow> lsmash_media_parameters_t option"
  lsmash_construct_timeline :: "'r \<Rightarrow> nat \<Rightarrow> 'r option"
  lsmash_get_last_sample_delta_from_media_timeline :: "'r \<Rightarrow> nat \<Rightarrow> nat option"
  lsmash_discard_boxes :: "'r \<Rightarrow> 'r"
  lsmash_pack_iso_language :: "string \<Rightarrow> nat"
  lsmash_set_movie_parameters :: "'r \<Rightarrow> lsmash_movie_parameters_t \<Rightarrow> 'r option"
  lsmash_import_itunes_metadata :: "'r \<Rightarrow> 'm option \<Rightarrow> 'r option"
  lsmash_create_track :: "'r \<Rightarrow> nat \<Rightarrow> nat \<times> 'r"
  lsmash_set_track_parameters :: "'r \<Rightarrow> nat \<Rightarrow> lsmash_track_parameters_t \<Rightarrow> 'r option"
  lsmash_set_media_parameters :: "'r \<Rightarrow> nat \<Rightarrow> lsmash_media_parameters_t \<Rightarrow> 'r option"
  lsmash_copy_decoder_specific_info :: "'r \<Rightarrow> nat \<Rightarrow> 'r \<Rightarrow> nat \<Rightarrow> 'r option"
  lsmash_get_dts_from_media_timeline :: "'r \<Rightarrow> nat \<Rightarrow> nat \<Rightarrow> nat option"
  lsmash_check_sample_existence_in_media_timeline :: "'r \<Rightarrow> nat \<Rightarrow> nat \<Rightarrow> bool"
  lsmash_get_sample_from_media_timeline :: "'r \<Rightarrow> nat \<Rightarrow> nat \<Rightarrow> 's option"
  lsmash_append_sample :: "'r \<Rightarrow> nat \<Rightarrow> 's \<Rightarrow> 'r option"
  lsmash_flush_pooled_samples :: "'r \<Rightarrow> nat \<Rightarrow> nat \<Rightarrow> 'r option"
  lsmash_copy_timeline_map :: "'r \<Rightarrow> nat \<Rightarrow> 'r \<Rightarrow> nat \<Rightarrow> 'r option"
  lsmash_finish_movie :: "'r \<Rightarrow> 'r option"
  seconds :: "nat \<Rightarrow> nat \<Rightarrow> 't"
  malloc :: "nat \<Rightarrow> bool"


record ('r, 'm) movie_io_t =
  "output" :: "('r, 'm) movie_t"
  "input" :: "('r, 'm) movie_t list"
  num_input :: nat
  track_option :: "track_media_option list list"

subsection \<open>Opening an input: \<^verbatim>\<open>get_movie\<close>\<close>

text \<open>
  The first loop (lines 135-140) asks for the identifier of each track; \<open>todo\<close> holds
  the values of \<^verbatim>\<open>i\<close> still to come.
\<close>

fun get_track_IDs :: "('r, 'm, 's, 't) lsmash \<Rightarrow> 'r \<Rightarrow> nat list \<Rightarrow> failure + nat list" where
  "get_track_IDs lib r [] = Inr []"
| "get_track_IDs lib r (i # todo) =
     (if lsmash_get_track_ID lib r (i + 1) = 0 then Inl Failed_to_get_track_ID
      else
        (case get_track_IDs lib r todo of
           Inl e \<Rightarrow> Inl e
         | Inr ids \<Rightarrow> Inr (lsmash_get_track_ID lib r (i + 1) # ids)))"

text \<open>
  The second loop (lines 141-157) over the identifiers found: the state behind the root
  handle, the metadata list and the tracks filled in so far go from one turn to the
  next.
\<close>

fun get_tracks ::
  "('r, 'm, 's, 't) lsmash \<Rightarrow> nat list \<Rightarrow> 'r \<times> 'm option \<times> track_t list
     \<Rightarrow> failure + 'r \<times> 'm option \<times> track_t list" where
  "get_tracks lib [] acc = Inr acc"
| "get_tracks lib (tid # ids) (r, meta, tracks) =
     (case lsmash_export_itunes_metadata lib r of
        None \<Rightarrow> Inl Failed_to_get_iTunes_metadata
      | Some m \<Rightarrow>
     (case lsmash_get_track_parameters lib r tid of
        None \<Rightarrow> Inl Failed_to_get_track_parameters
      | Some tp \<Rightarrow>
     (case lsmash_get_media_parameters lib r tid of
        None \<Rightarrow> Inl Failed_to_get_media_parameters
      | Some mp \<Rightarrow>
     (case lsmash_construct_timeline lib r tid of
        None \<Rightarrow> Inl Failed_to_construct_timeline
      | Some r' \<Rightarrow>
     (case lsmash_get_last_sample_delta_from_media_timeline lib r' tid of
        None \<Rightarrow> Inl Failed_to_get_the_last_sample_delta
      | Some delta \<Rightarrow>
          get_tracks lib ids
            (r', Some m,
             tracks @ [\<lparr>track_ID = tid, last_sample_delta = delta, current_sample_number = 1,
                        reach_end_of_media_timeline = False, track_param = tp,
                        media_param = mp\<rparr>]))))))"

definition get_movie ::
  "('r, 'm, 's, 't) lsmash \<Rightarrow> ('r, 'm) movie_t \<Rightarrow> string \<Rightarrow> failure + ('r, 'm) movie_t" where
  "get_movie lib input_movie input_name =
     (if input_name = ''-'' then Inl Standard_input_not_supported
      else
        (case lsmash_open_movie lib input_name LSMASH_FILE_MODE_READ of
           None \<Rightarrow> Inl Failed_to_open_input_file
         | Some r \<Rightarrow>
             (let param = lsmash_get_movie_parameters lib r;
                  n = number_of_tracks param
              in if \<not> malloc lib n then Inl Failed_to_alloc_input_tracks
                 else
                   (case get_track_IDs lib r [0 ..< n] of
                      Inl e \<Rightarrow> Inl e
                    | Inr ids \<Rightarrow>
                        (case get_tracks lib ids (r, itunes_meta_list input_movie, []) of
                           Inl e \<Rightarrow> Inl e
                         | Inr (r', meta, tracks) \<Rightarrow>
                             Inr (input_movie
                               \<lparr>root := Some (lsmash_discard_boxes lib r'),
                                itunes_meta_list := meta, track := tracks,
                                movie_param := param, num_tracks := n,
                                current_track_number := 1\<rparr>))))))"

subsection \<open>Track options: \<^verbatim>\<open>parse_track_option\<close>\<close>

text \<open>\<open>after_char s c\<close> is \<^verbatim>\<open>strchr( s, c ) + 1\<close>: the text behind the first \<open>c\<close>.\<close>

definition after_char :: "string \<Rightarrow> char \<Rightarrow> string option" where
  "after_char s c = (case strchr s c of None \<Rightarrow> None | Some k \<Rightarrow> Some (drop (Suc k) s))"

lemma strtok_shorter: "strtok s delim = (Some tok, rest) \<Longrightarrow> length rest < length s"
proof -
  assume a: "strtok s delim = (Some tok, rest)"
  let ?t = "dropWhile (\<lambda>c. c \<in> set delim) s"
  from a have t: "?t \<noteq> []" and rest: "rest = drop 1 (dropWhile (\<lambda>c. c \<notin> set delim) ?t)"
    by (auto simp: strtok_def Let_def split: if_splits)
  have "length (dropWhile (\<lambda>c. c \<notin> set delim) ?t) \<le> length ?t"
    by (rule length_dropWhile_le)
  moreover have "length ?t \<le> length s"
    by (rule length_dropWhile_le)
  moreover have "0 < length ?t" using t by (cases ?t) simp_all
  ultimately show ?thesis unfolding rest length_drop by linarith
qed

text \<open>
  The loop over the options of one track (lines 258-274). \<open>saved\<close> is the text
  \<^verbatim>\<open>strtok( NULL, "," )\<close> continues from, \<open>n\<close> is \<^verbatim>\<open>track_number - 1\<close>, \<open>opts\<close> is the
  array \<^verbatim>\<open>track[i]\<close>, and \<open>track_opt\<close> is the local variable \<^verbatim>\<open>track_option\<close>.
\<close>

function parse_options ::
  "('r, 'm, 's, 't) lsmash \<Rightarrow> string \<Rightarrow> nat \<Rightarrow> track_media_option list
     \<Rightarrow> failure + track_media_option list" where
  "parse_options lib saved n opts =
     (case strtok saved '','' of
        (None, saved') \<Rightarrow> Inr opts
      | (Some track_opt, saved') \<Rightarrow>
          if strchr track_opt CHR ''='' \<noteq> strrchr track_opt CHR ''=''
          then Inl (Multiple_equal_signs track_opt)
          else if strstr track_opt ''alternate-group='' \<noteq> None then
            (case after_char track_opt CHR ''='' of
               None \<Rightarrow> Inl Null_pointer
             | Some track_parameter \<Rightarrow>
                 if n < length opts
                 then parse_options lib saved' n
                        (opts[n := (opts ! n)\<lparr>alternate_group := to_int16 (atoi track_parameter)\<rparr>])
                 else Inl Out_of_bounds)
          else if strstr track_opt ''language='' \<noteq> None then
            (case after_char track_opt CHR ''='' of
               None \<Rightarrow> Inl Null_pointer
             | Some track_parameter \<Rightarrow>
                 if n < length opts
                 then parse_options lib saved' n
                        (opts[n := (opts ! n)\<lparr>ISO_language := lsmash_pack_iso_language lib track_parameter\<rparr>])
                 else Inl Out_of_bounds)
          else Inl (Unknown_track_option track_opt))"
  by pat_completeness auto
termination
  by (relation "measure (\<lambda>(lib, saved, n, opts). length saved)")
     (auto dest: strtok_shorter sym)

text \<open>
  One entry of \<^verbatim>\<open>track[i]\<close> with its raw option text (lines 247-274); \<open>n\<close> is the number
  of tracks of the input. \<^verbatim>\<open>strtok\<close> cuts the raw text at the colon, which nothing reads
  afterwards but the message of line 254.
\<close>

definition parse_track_entry ::
  "('r, 'm, 's, 't) lsmash \<Rightarrow> nat \<Rightarrow> string \<Rightarrow> track_media_option list
     \<Rightarrow> failure + track_media_option list" where
  "parse_track_entry lib n raw opts =
     (if strchr raw CHR '':'' = None \<or> strchr raw CHR '':'' = Some 0
      then Inl (Track_number_is_not_specified raw)
      else if strchr raw CHR '':'' \<noteq> strrchr raw CHR '':''
      then Inl (Multiple_colons raw)
      else
        (case strtok raw '':'' of
           (None, saved) \<Rightarrow> Inl Null_pointer
         | (Some number, saved) \<Rightarrow>
             (let track_number = to_uint32 (atoi number)
              in if track_number = 0 then Inl (Invalid_track_number_text number)
                 else if track_number > n then Inl (Invalid_track_number track_number)
                 else parse_options lib saved (track_number - 1) opts)))"

text \<open>The loop over \<open>j\<close> (line 242), left at the first entry without raw text.\<close>

function parse_track_entries ::
  "('r, 'm, 's, 't) lsmash \<Rightarrow> nat \<Rightarrow> nat \<Rightarrow> track_media_option list
     \<Rightarrow> failure + track_media_option list" where
  "parse_track_entries lib n j opts =
     (if j < n then
        (if j < length opts then
           (case raw_track_option (opts ! j) of
              None \<Rightarrow> Inr opts
            | Some raw \<Rightarrow>
                (case parse_track_entry lib n raw opts of
                   Inl e \<Rightarrow> Inl e
                 | Inr opts' \<Rightarrow> parse_track_entries lib n (Suc j) opts'))
         else Inl Out_of_bounds)
      else Inr opts)"
  by pat_completeness auto
termination
  by (relation "measure (\<lambda>(lib, n, j, opts). n - j)") auto

text \<open>The loop over the inputs (line 241), \<open>todo\<close> being the indices still to visit.\<close>

fun parse_track_option_from ::
  "('r, 'm, 's, 't) lsmash \<Rightarrow> nat list \<Rightarrow> ('r, 'm) movie_io_t \<Rightarrow> failure + ('r, 'm) movie_io_t" where
  "parse_track_option_from lib [] io = Inr io"
| "parse_track_option_from lib (i # todo) io =
     (case parse_track_entries lib (num_tracks (input io ! i)) 0 (track_option io ! i) of
        Inl e \<Rightarrow> Inl e
      | Inr opts \<Rightarrow>
          parse_track_option_from lib todo (io\<lparr>track_option := (track_option io)[i := opts]\<rparr>))"

definition parse_track_option ::
  "('r, 'm, 's, 't) lsmash \<Rightarrow> ('r, 'm) movie_io_t \<Rightarrow> failure + ('r, 'm) movie_io_t" where
  "parse_track_option lib io = parse_track_option_from lib [0 ..< num_input io] io"


subsection \<open>The command line: \<^verbatim>\<open>parse_cli_option\<close>\<close>

text \<open>
  The variables of \<^verbatim>\<open>parse_cli_option\<close> while it reads the arguments: \<^verbatim>\<open>io\<close>, the
  array \<^verbatim>\<open>input_file_option\<close> (an entry is \<open>None\<close> until it is written), the counter
  \<^verbatim>\<open>input_movie_number\<close>, and the text that \<^verbatim>\<open>strtok( NULL, ... )\<close> continues from. A
  function that gives up returns the messages printed, in order.
\<close>

record ('r, 'm) cli =
  cli_io :: "('r, 'm) movie_io_t"
  input_file_option :: "file_option option list"
  cli_input_movie_number :: nat
  strtok_saved :: string

definition is_input_flag :: "string \<Rightarrow> bool" where
  "is_input_flag a = (strcasecmp_eq a ''-i'' \<or> strcasecmp_eq a ''--input'')"

definition is_output_flag :: "string \<Rightarrow> bool" where
  "is_output_flag a = (strcasecmp_eq a ''-o'' \<or> strcasecmp_eq a ''--output'')"

definition is_help_flag :: "string \<Rightarrow> bool" where
  "is_help_flag a = (strcasecmp_eq a ''-h'' \<or> strcasecmp_eq a ''--help'')"

text \<open>
  Lines 290-306, the argument \<open>arg\<close> behind \<^verbatim>\<open>-i\<close>: the file name is the text before
  the first question mark, the track options are what follows it.
\<close>

text \<open>\<open>zero_option\<close> is a cell of \<^verbatim>\<open>track_option[i]\<close> after the \<^verbatim>\<open>memset\<close> of line 304.\<close>

definition zero_option :: track_media_option where
  "zero_option = \<lparr>raw_track_option = None, alternate_group = 0, ISO_language = 0\<rparr>"

definition add_input ::
  "('r, 'm, 's, 't) lsmash \<Rightarrow> string \<Rightarrow> ('r, 'm) cli \<Rightarrow> failure list + ('r, 'm) cli" where
  "add_input lib arg s =
     (let k = cli_input_movie_number s; io = cli_io s
      in
      case strtok arg ''?'' of
        (None, saved) \<Rightarrow> Inl [Null_pointer]
      | (Some input_name, saved) \<Rightarrow>
          if \<not> (k < length (input io) \<and> k < length (track_option io)
                \<and> k < length (input_file_option s))
          then Inl [Out_of_bounds]
          else
            (case get_movie lib (input io ! k) input_name of
               Inl e \<Rightarrow> Inl [e, Failed_to_get_input_movie]
             | Inr movie \<Rightarrow>
                 if \<not> malloc lib (num_tracks movie) then Inl [Could_not_allocate_memory]
                 else
                   Inr (s\<lparr>cli_io := io
                            \<lparr>input := (input io)[k := movie],
                             track_option := (track_option io)[k :=
                               replicate (num_tracks movie) zero_option]\<rparr>,
                          input_file_option := (input_file_option s)[k :=
                            Some \<lparr>whole_track_option = fst (strtok saved ''''),
                                  num_track_delimiter = length (filter (\<lambda>c. c = CHR ''?'') arg)\<rparr>],
                          cli_input_movie_number := k + 1,
                          strtok_saved := snd (strtok saved '''')\<rparr>)))"

text \<open>The loop over the arguments (lines 285-318); \<open>args\<close> is \<^verbatim>\<open>argv[i]\<close> and what follows.\<close>

fun parse_arguments ::
  "('r, 'm, 's, 't) lsmash \<Rightarrow> string list \<Rightarrow> ('r, 'm) cli \<Rightarrow> failure list + ('r, 'm) cli" where
  "parse_arguments lib [] s = Inr s"
| "parse_arguments lib [a] s =
     (if is_input_flag a then Inl [Requires_an_argument ''-i'']
      else if is_output_flag a then Inl [Requires_an_argument ''-o'']
      else Inl [Unknown_option_found a])"
| "parse_arguments lib (a # arg # args) s =
     (if is_input_flag a then
        (case add_input lib arg s of
           Inl es \<Rightarrow> Inl es
         | Inr s' \<Rightarrow> parse_arguments lib args s')
      else if is_output_flag a then
        parse_arguments lib args
          (s\<lparr>cli_io := (cli_io s)\<lparr>output := (output (cli_io s))
                \<lparr>root := lsmash_open_movie lib arg LSMASH_FILE_MODE_WRITE\<rparr>\<rparr>\<rparr>)
      else Inl [Unknown_option_found a])"

text \<open>
  Lines 321-327: the options of every track start from the parameters of the track.
  The two arrays have \<^verbatim>\<open>num_tracks\<close> cells each.
\<close>

definition default_options :: "('r, 'm) movie_t \<Rightarrow> track_media_option list \<Rightarrow> track_media_option list" where
  "default_options movie opts =
     map (\<lambda>j. if j < num_tracks movie
               then (opts ! j)\<lparr>alternate_group := tp_alternate_group (track_param (track movie ! j)),
                               ISO_language := mp_ISO_language (media_param (track movie ! j))\<rparr>
               else opts ! j)
       [0 ..< length opts]"

text \<open>
  Lines 334-336: the raw text of the options of one track after the other, cut at the
  question marks; \<open>js\<close> holds the values of \<^verbatim>\<open>j\<close> still to come and \<open>saved\<close> is the text
  the next \<^verbatim>\<open>strtok\<close> scans.
\<close>

fun take_raw_options ::
  "nat list \<Rightarrow> string \<Rightarrow> track_media_option list \<Rightarrow> failure list + track_media_option list \<times> string" where
  "take_raw_options [] saved opts = Inr (opts, saved)"
| "take_raw_options (j # js) saved opts =
     (if j < length opts
      then take_raw_options js (snd (strtok saved ''?''))
             (opts[j := (opts ! j)\<lparr>raw_track_option := fst (strtok saved ''?'')\<rparr>])
      else Inl [Out_of_bounds])"

text \<open>The loop of lines 329-338 over the inputs \<open>todo\<close>.\<close>

fun split_track_options :: "nat list \<Rightarrow> ('r, 'm) cli \<Rightarrow> failure list + ('r, 'm) cli" where
  "split_track_options [] s = Inr s"
| "split_track_options (i # todo) s =
     (case input_file_option s ! i of
        None \<Rightarrow> Inl [Uninitialised]
      | Some file_opt \<Rightarrow>
          if num_track_delimiter file_opt > num_tracks (input (cli_io s) ! i)
          then Inl [More_track_options_than_tracks (num_tracks (input (cli_io s) ! i))]
          else if num_track_delimiter file_opt \<noteq> 0 then
            (case take_raw_options [0 ..< num_track_delimiter file_opt]
                    (case whole_track_option file_opt of
                       None \<Rightarrow> strtok_saved s
                     | Some whole \<Rightarrow> whole)
                    (track_option (cli_io s) ! i) of
               Inl es \<Rightarrow> Inl es
             | Inr (opts, saved) \<Rightarrow>
                 split_track_options todo
                   (s\<lparr>cli_io := (cli_io s)\<lparr>track_option := (track_option (cli_io s))[i := opts]\<rparr>,
                      strtok_saved := saved\<rparr>))
          else split_track_options todo s)"

text \<open>
  \<open>gather_cli\<close> is \<^verbatim>\<open>parse_cli_option\<close> up to line 338, where the raw option texts are
  in place; \<^verbatim>\<open>parse_track_option\<close> follows.
\<close>

definition gather_cli ::
  "('r, 'm, 's, 't) lsmash \<Rightarrow> string list \<Rightarrow> ('r, 'm) movie_io_t
     \<Rightarrow> failure list + ('r, 'm) movie_io_t" where
  "gather_cli lib argv io =
     (case parse_arguments lib (drop 1 argv)
             \<lparr>cli_io = io, input_file_option = replicate (num_input io) None,
              cli_input_movie_number = 0, strtok_saved = []\<rparr> of
        Inl es \<Rightarrow> Inl es
      | Inr s \<Rightarrow>
          (case split_track_options [0 ..< num_input io]
                  (s\<lparr>cli_io := (cli_io s)\<lparr>track_option :=
                        map (\<lambda>i. default_options (input (cli_io s) ! i) (track_option (cli_io s) ! i))
                          [0 ..< num_input io]\<rparr>\<rparr>) of
             Inl es \<Rightarrow> Inl es
           | Inr s' \<Rightarrow> Inr (cli_io s')))"

definition parse_cli_option ::
  "('r, 'm, 's, 't) lsmash \<Rightarrow> string list \<Rightarrow> ('r, 'm) movie_io_t
     \<Rightarrow> failure list + ('r, 'm) movie_io_t" where
  "parse_cli_option lib argv io =
     (case gather_cli lib argv io of
        Inl es \<Rightarrow> Inl es
      | Inr io' \<Rightarrow>
          (case parse_track_option lib io' of
             Inl e \<Rightarrow> Inl [e, Failed_to_parse_track_options]
           | Inr io'' \<Rightarrow> Inr io''))"

subsection \<open>\<^verbatim>\<open>main\<close> up to the muxing loop\<close>

text \<open>
  How \<^verbatim>\<open>main\<close> gets on before line 422: \<open>Usage c\<close>, it has shown the help text and
  returned \<open>c\<close>; \<open>Error es\<close>, it has printed the messages \<open>es\<close> and returned \<open>-1\<close>;
  \<open>Muxing io\<close>, it has reached the muxing loop with \<open>io\<close>.
\<close>

datatype 'a launch = Usage int | Error "failure list" | Muxing 'a

definition zero_movie :: "('r, 'm) movie_t" where
  "zero_movie =
     \<lparr>root = None, itunes_meta_list = None, track = [],
      movie_param = \<lparr>major_brand = 0, minor_version = 0, brands = [], number_of_tracks = 0\<rparr>,
      num_tracks = 0, current_track_number = 0\<rparr>"

definition zero_track :: track_t where
  "zero_track =
     \<lparr>track_ID = 0, last_sample_delta = 0, current_sample_number = 0,
      reach_end_of_media_timeline = False,
      track_param = \<lparr>tp_track_ID = 0, tp_alternate_group = 0\<rparr>,
      media_param = \<lparr>handler_type = 0, timescale = 0, mp_ISO_language = 0\<rparr>\<rparr>"

text \<open>\<^verbatim>\<open>set_movie_parameters\<close> (lines 162-230) with its call of the library.\<close>

definition set_movie_parameters ::
  "('r, 'm, 's, 't) lsmash \<Rightarrow> ('r, 'm) movie_io_t \<Rightarrow> failure + ('r, 'm) movie_io_t" where
  "set_movie_parameters lib io =
     (let param = output_movie_parameters (lsmash_initialize_movie_parameters lib)
                    (map movie_param (input io))
      in case root (output io) of
           None \<Rightarrow> Inl Null_pointer
         | Some r \<Rightarrow>
             (case lsmash_set_movie_parameters lib r param of
                None \<Rightarrow> Inl Failed_to_set_output_movie_parameters
              | Some r' \<Rightarrow> Inr (io\<lparr>output := (output io)\<lparr>movie_param := param, root := Some r'\<rparr>\<rparr>)))"

text \<open>Lines 379-381, over the inputs \<open>movies\<close>; \<open>r\<close> is the state behind \<^verbatim>\<open>output.root\<close>.\<close>

fun import_itunes_metadata ::
  "('r, 'm, 's, 't) lsmash \<Rightarrow> ('r, 'm) movie_t list \<Rightarrow> 'r \<Rightarrow> 'r option" where
  "import_itunes_metadata lib [] r = Some r"
| "import_itunes_metadata lib (movie # movies) r =
     (case lsmash_import_itunes_metadata lib r (itunes_meta_list movie) of
        None \<Rightarrow> None
      | Some r' \<Rightarrow> import_itunes_metadata lib movies r')"

text \<open>
  The body of the loops of lines 389-420 for track \<open>j\<close> of input \<open>i\<close>: a track is
  created in the output and takes the parameters of the input track, but for the
  alternate group and the language, which come from the track options.
\<close>

definition create_output_track ::
  "('r, 'm, 's, 't) lsmash \<Rightarrow> nat \<Rightarrow> nat \<Rightarrow> ('r, 'm) movie_io_t \<Rightarrow> failure + ('r, 'm) movie_io_t" where
  "create_output_track lib i j io =
     (let out = output io; k = current_track_number out - 1
      in
      if \<not> (i < length (input io) \<and> j < length (track (input io ! i)) \<and> 1 \<le> current_track_number out
            \<and> k < length (track out) \<and> i < length (track_option io) \<and> j < length (track_option io ! i))
      then Inl Out_of_bounds
      else
      (let in_track = track (input io ! i) ! j
       in
       case root out of
         None \<Rightarrow> Inl Null_pointer
       | Some r \<Rightarrow>
      (let tid = fst (lsmash_create_track lib r (handler_type (media_param in_track)));
           r1 = snd (lsmash_create_track lib r (handler_type (media_param in_track)));
           tp = (track_param in_track)
                  \<lparr>tp_alternate_group := alternate_group (track_option io ! i ! j),
                   tp_track_ID := tid\<rparr>;
           mp = (media_param in_track)\<lparr>mp_ISO_language := ISO_language (track_option io ! i ! j)\<rparr>
       in
       if tid = 0 then Inl Failed_to_create_a_track
       else
       (case lsmash_set_track_parameters lib r1 tid tp of
          None \<Rightarrow> Inl Failed_to_set_track_parameters
        | Some r2 \<Rightarrow>
       (case lsmash_set_media_parameters lib r2 tid mp of
          None \<Rightarrow> Inl Failed_to_set_media_parameters
        | Some r3 \<Rightarrow>
       (case root (input io ! i) of
          None \<Rightarrow> Inl Null_pointer
        | Some in_root \<Rightarrow>
       (case lsmash_copy_decoder_specific_info lib r3 tid in_root (track_ID in_track) of
          None \<Rightarrow> Inl Failed_to_copy_a_Decoder_Specific_Info
        | Some r4 \<Rightarrow>
            Inr (io\<lparr>output := out
                   \<lparr>root := Some r4,
                    track := (track out)[k :=
                      \<lparr>track_ID = tid, last_sample_delta = last_sample_delta in_track,
                       current_sample_number = 1, reach_end_of_media_timeline = False,
                       track_param = tp, media_param = mp\<rparr>],
                    current_track_number := uint32_inc (current_track_number out)\<rparr>\<rparr>))))))))"

fun create_tracks_of ::
  "('r, 'm, 's, 't) lsmash \<Rightarrow> nat \<Rightarrow> nat list \<Rightarrow> ('r, 'm) movie_io_t \<Rightarrow> failure + ('r, 'm) movie_io_t" where
  "create_tracks_of lib i [] io = Inr io"
| "create_tracks_of lib i (j # js) io =
     (case create_output_track lib i j io of
        Inl e \<Rightarrow> Inl e
      | Inr io' \<Rightarrow> create_tracks_of lib i js io')"

fun create_tracks ::
  "('r, 'm, 's, 't) lsmash \<Rightarrow> nat list \<Rightarrow> ('r, 'm) movie_io_t \<Rightarrow> failure + ('r, 'm) movie_io_t" where
  "create_tracks lib [] io = Inr io"
| "create_tracks lib (i # todo) io =
     (case create_tracks_of lib i [0 ..< num_tracks (input io ! i)] io of
        Inl e \<Rightarrow> Inl e
      | Inr io' \<Rightarrow> create_tracks lib todo (io'\<lparr>track_option := (track_option io')[i := []]\<rparr>))"

text \<open>
  Lines 363-369: the variables \<^verbatim>\<open>output\<close>, \<^verbatim>\<open>input\<close>, \<^verbatim>\<open>track_option\<close> and \<^verbatim>\<open>io\<close> for
  \<open>n\<close> inputs, all cells zero.
\<close>

definition initial_io :: "nat \<Rightarrow> ('r, 'm) movie_io_t" where
  "initial_io n =
     \<lparr>output = zero_movie, input = replicate n zero_movie, num_input = n,
      track_option = replicate n []\<rparr>"

text \<open>
  Lines 356-421. The array \<^verbatim>\<open>output.track\<close> comes from \<^verbatim>\<open>malloc\<close> with cells that hold
  anything; every field of every cell is written before it is read, and the model
  starts from \<open>zero_track\<close>. A freed array \<^verbatim>\<open>track_option[i]\<close> is the empty list.
\<close>

definition main_prepare ::
  "('r, 'm, 's, 't) lsmash \<Rightarrow> string list \<Rightarrow> ('r, 'm) movie_io_t launch" where
  "main_prepare lib argv =
     (if length argv < 5 then Usage (- 1)
      else if is_help_flag (argv ! 1) then Usage 0
      else
      (let n = length (filter is_input_flag (drop 1 argv))
       in
       if n = 0 then Error [No_input_file_specified]
       else
       (case parse_cli_option lib argv (initial_io n) of
          Inl es \<Rightarrow> Error (es @ [Failed_to_parse_command_line_options])
        | Inr io1 \<Rightarrow>
       (case root (output io1) of
          None \<Rightarrow> Error [Failed_to_open_output_movie]
        | Some r1 \<Rightarrow>
       (case set_movie_parameters lib io1 of
          Inl e \<Rightarrow> Error [Failed_to_set_output_movie_parameters]
        | Inr io2 \<Rightarrow>
       (case root (output io2) of
          None \<Rightarrow> Error [Null_pointer]
        | Some r2 \<Rightarrow>
       (case import_itunes_metadata lib (input io2) r2 of
          None \<Rightarrow> Error [Failed_to_set_iTunes_metadata]
        | Some r3 \<Rightarrow>
       (let total = foldl uint32_add (num_tracks (output io2)) (map num_tracks (input io2));
            io3 = io2\<lparr>output := (output io2)
                    \<lparr>root := Some r3, num_tracks := total, track := replicate total zero_track,
                     current_track_number := 1\<rparr>\<rparr>
        in
        if \<not> malloc lib total then Error [Failed_to_alloc_output_tracks]
        else
        (case create_tracks lib [0 ..< n] io3 of
           Inl e \<Rightarrow> Error [e]
         | Inr io4 \<Rightarrow> Muxing io4)))))))))"

subsection \<open>The muxing loop of \<^verbatim>\<open>main\<close>\<close>

text \<open>
  The variables of \<^verbatim>\<open>main\<close> that the loop of lines 430-494 reads and writes. \<open>files\<close>
  holds the arrays \<^verbatim>\<open>input\<close> and \<^verbatim>\<open>output\<close>, which \<^verbatim>\<open>io\<close> points to. The byte count
  \<^verbatim>\<open>total_media_size\<close> and the counter \<^verbatim>\<open>sample_count\<close> only feed the progress message
  and are left out. \<open>transfers\<close> is not a variable of the program: it records, in order,
  every sample that \<^verbatim>\<open>lsmash_append_sample\<close> accepted.
\<close>

record transfer =
  source :: nat
  source_track :: nat
  sample_number :: nat
  sample_dts :: nat
  target_track :: nat

record ('r, 'm, 't) muxer =
  files :: "('r, 'm) movie_io_t"
  largest_dts :: 't
  input_movie_number :: nat
  num_consecutive_sample_skip :: nat
  num_active_input_tracks :: nat
  transfers :: "transfer list"

datatype 'a step = Continue 'a | Break 'a | Abort failure

text \<open>\<open>element xs k\<close> is \<^verbatim>\<open>xs[k - 1]\<close>, and \<open>None\<close> where that lies outside the array.\<close>

definition element :: "'a list \<Rightarrow> nat \<Rightarrow> 'a option" where
  "element xs k = (if 1 \<le> k \<and> k \<le> length xs then Some (xs ! (k - 1)) else None)"

definition LSMASH_MAX :: "'a::linorder \<Rightarrow> 'a \<Rightarrow> 'a" where
  "LSMASH_MAX a b = (if a > b then a else b)"

text \<open>Assignments through the pointers \<^verbatim>\<open>movie\<close>, \<^verbatim>\<open>in_track\<close> and \<^verbatim>\<open>out_track\<close>.\<close>

definition update_movie ::
  "(('r, 'm) movie_t \<Rightarrow> ('r, 'm) movie_t) \<Rightarrow> ('r, 'm, 't) muxer \<Rightarrow> ('r, 'm, 't) muxer" where
  "update_movie f st =
     st\<lparr>files := (files st)\<lparr>input :=
        (input (files st))[input_movie_number st - 1 :=
           f (input (files st) ! (input_movie_number st - 1))]\<rparr>\<rparr>"

definition update_output ::
  "(('r, 'm) movie_t \<Rightarrow> ('r, 'm) movie_t) \<Rightarrow> ('r, 'm, 't) muxer \<Rightarrow> ('r, 'm, 't) muxer" where
  "update_output f st = st\<lparr>files := (files st)\<lparr>output := f (output (files st))\<rparr>\<rparr>"

definition update_current_track :: "(track_t \<Rightarrow> track_t) \<Rightarrow> ('r, 'm) movie_t \<Rightarrow> ('r, 'm) movie_t" where
  "update_current_track f movie =
     movie\<lparr>track := (track movie)[current_track_number movie - 1 :=
        f (track movie ! (current_track_number movie - 1))]\<rparr>"

text \<open>Lines 482-493: on to the next track, the next input movie, the next output track.\<close>

definition move_to_next_track :: "('r, 'm, 't) muxer \<Rightarrow> ('r, 'm, 't) muxer" where
  "move_to_next_track st =
     (let st1 = update_movie (\<lambda>movie. movie\<lparr>current_track_number :=
                   uint32_inc (current_track_number movie)\<rparr>) st;
          st2 = update_output (\<lambda>out. out\<lparr>current_track_number :=
                   uint32_inc (current_track_number out)\<rparr>) st1;
          movie = input (files st2) ! (input_movie_number st2 - 1);
          st3 = (if current_track_number movie > num_tracks movie
                 then (update_movie (\<lambda>movie. movie\<lparr>current_track_number := 1\<rparr>) st2)
                        \<lparr>input_movie_number := uint32_inc (input_movie_number st2)\<rparr>
                 else st2);
          st4 = (if input_movie_number st3 > num_input (files st3)
                 then st3\<lparr>input_movie_number := 1\<rparr> else st3)
      in if current_track_number (output (files st4)) > num_tracks (output (files st4))
         then update_output (\<lambda>out. out\<lparr>current_track_number := 1\<rparr>) st4
         else st4)"

text \<open>
  One turn of the loop, lines 432-493. \<open>Break\<close> is the \<^verbatim>\<open>break\<close> of line 451, \<open>Abort\<close> a
  \<^verbatim>\<open>return REMUXER_ERR( ... )\<close>, or one of the three undefined executions.
\<close>

definition mux_step ::
  "('r, 'm, 's, 't::linorder) lsmash \<Rightarrow> ('r, 'm, 't) muxer \<Rightarrow> ('r, 'm, 't) muxer step" where
  "mux_step lib st =
     (case element (input (files st)) (input_movie_number st) of
        None \<Rightarrow> Abort Out_of_bounds
      | Some movie \<Rightarrow>
     (case element (track movie) (current_track_number movie) of
        None \<Rightarrow> Abort Out_of_bounds
      | Some in_track \<Rightarrow>
     if reach_end_of_media_timeline in_track then Continue (move_to_next_track st)
     else
     (case element (track (output (files st))) (current_track_number (output (files st))) of
        None \<Rightarrow> Abort Out_of_bounds
      | Some out_track \<Rightarrow>
     (case root movie of
        None \<Rightarrow> Abort Null_pointer
      | Some movie_root \<Rightarrow>
     (let in_track_ID = track_ID in_track;
          out_track_ID = track_ID out_track;
          input_media_timescale = timescale (media_param in_track)
      in
      case lsmash_get_dts_from_media_timeline lib movie_root in_track_ID
             (current_sample_number in_track) of
        None \<Rightarrow>
          if lsmash_check_sample_existence_in_media_timeline lib movie_root in_track_ID
               (current_sample_number in_track)
          then Abort Failed_to_get_the_DTS
          else
            (let st1 = update_movie (update_current_track
                          (\<lambda>t. t\<lparr>reach_end_of_media_timeline := True\<rparr>)) st;
                 st2 = st1\<lparr>num_active_input_tracks := uint32_dec (num_active_input_tracks st1)\<rparr>
             in if num_active_input_tracks st2 = 0 then Break st2
                else Continue (move_to_next_track st2))
      | Some dts \<Rightarrow>
          if seconds lib dts input_media_timescale \<le> largest_dts st
             \<or> num_consecutive_sample_skip st = num_active_input_tracks st
          then
            (case lsmash_get_sample_from_media_timeline lib movie_root in_track_ID
                    (current_sample_number in_track) of
               None \<Rightarrow> Abort Failed_to_get_sample
             | Some sample \<Rightarrow>
            (case root (output (files st)) of
               None \<Rightarrow> Abort Null_pointer
             | Some output_root \<Rightarrow>
            (case lsmash_append_sample lib output_root out_track_ID sample of
               None \<Rightarrow> Abort Failed_to_append_a_sample
             | Some output_root' \<Rightarrow>
                 (let st1 = update_output (\<lambda>out. out\<lparr>root := Some output_root'\<rparr>) st;
                      st2 = st1\<lparr>largest_dts :=
                              LSMASH_MAX (largest_dts st1) (seconds lib dts input_media_timescale)\<rparr>;
                      st3 = update_movie (update_current_track
                              (\<lambda>t. t\<lparr>current_sample_number :=
                                 uint32_inc (current_sample_number t)\<rparr>)) st2;
                      st4 = update_output (update_current_track
                              (\<lambda>t. t\<lparr>current_sample_number :=
                                 uint32_inc (current_sample_number t)\<rparr>)) st3;
                      st5 = st4\<lparr>num_consecutive_sample_skip := 0,
                                transfers := transfers st4 @
                                  [\<lparr>source = input_movie_number st,
                                    source_track = current_track_number movie,
                                    sample_number = current_sample_number in_track,
                                    sample_dts = dts,
                                    target_track = current_track_number (output (files st))\<rparr>]\<rparr>
                  in Continue (move_to_next_track st5)))))
          else Continue (move_to_next_track
                 (st\<lparr>num_consecutive_sample_skip :=
                    uint32_inc (num_consecutive_sample_skip st)\<rparr>)))))))"

text \<open>
  The loop \<^verbatim>\<open>while( 1 )\<close>: the result is \<open>None\<close> if it never ends, the failure if a turn
  gives up, and else the state at the \<^verbatim>\<open>break\<close>.
\<close>

partial_function (option) mux_loop ::
  "('r, 'm, 's, 't::linorder) lsmash \<Rightarrow> ('r, 'm, 't) muxer \<Rightarrow> (failure + ('r, 'm, 't) muxer) option" where
  "mux_loop lib st =
     (case mux_step lib st of
        Continue st' \<Rightarrow> mux_loop lib st'
      | Break st' \<Rightarrow> Some (Inr st')
      | Abort e \<Rightarrow> Some (Inl e))"

text \<open>
  \<open>mux_turns lib n st\<close>: where the loop started in \<open>st\<close> stands after at most \<open>n\<close>
  turns. \<open>Continue st'\<close>: it has made \<open>n\<close> turns and is in \<open>st'\<close>; \<open>Break st'\<close>: it has
  left by the \<^verbatim>\<open>break\<close> in \<open>st'\<close>; \<open>Abort e\<close>: it has given up. \<open>reached\<close> is the state
  in the first two cases.
\<close>

fun mux_turns ::
  "('r, 'm, 's, 't::linorder) lsmash \<Rightarrow> nat \<Rightarrow> ('r, 'm, 't) muxer \<Rightarrow> ('r, 'm, 't) muxer step" where
  "mux_turns lib 0 st = Continue st"
| "mux_turns lib (Suc n) st =
     (case mux_step lib st of
        Continue st' \<Rightarrow> mux_turns lib n st'
      | Break st' \<Rightarrow> Break st'
      | Abort e \<Rightarrow> Abort e)"

fun reached :: "'a step \<Rightarrow> 'a option" where
  "reached (Continue a) = Some a"
| "reached (Break a) = Some a"
| "reached (Abort e) = None"

text \<open>Lines 422-429: the state in which the loop starts.\<close>

definition start_muxing :: "('r, 'm) movie_io_t \<Rightarrow> ('r, 'm, 't::zero) muxer" where
  "start_muxing io =
     \<lparr>files = io\<lparr>output := (output io)\<lparr>current_track_number := 1\<rparr>\<rparr>,
      largest_dts = 0,
      input_movie_number = 1,
      num_consecutive_sample_skip = 0,
      num_active_input_tracks = num_tracks (output io),
      transfers = []\<rparr>"

section \<open>Properties\<close>

subsection \<open>Notions used in the statements\<close>

text \<open>
  \<open>most_used keys k\<close>: no pair of brand and minor version occurs in \<open>keys\<close> more often
  than \<open>k\<close> does.
\<close>

definition most_used :: "(nat \<times> nat) list \<Rightarrow> nat \<times> nat \<Rightarrow> bool" where
  "most_used keys k = (\<forall>q \<in> set keys. count_list keys q \<le> count_list keys k)"

text \<open>
  \<open>first_seen xs\<close>: \<open>xs\<close> without its repetitions, every element at the place of its
  first occurrence.
\<close>

definition first_seen :: "'a list \<Rightarrow> 'a list" where
  "first_seen xs = rev (remdups (rev xs))"

text \<open>
  \<open>unseen_from seen xs\<close>: the elements of \<open>xs\<close> that occur neither in \<open>seen\<close> nor earlier
  in \<open>xs\<close>.
\<close>

fun unseen_from :: "'a list \<Rightarrow> 'a list \<Rightarrow> 'a list" where
  "unseen_from seen [] = []"
| "unseen_from seen (x # xs) =
     (if x \<in> set seen then unseen_from (seen @ [x]) xs
      else x # unseen_from (seen @ [x]) xs)"

text \<open>
  The round robin of the muxing loop, seen as one walk over all input tracks in a row. A
  \<open>slot\<close> is an input track with the movie it belongs to; a \<open>schedule\<close> is the state of
  the loop with the tracks of all input movies laid out in one list and one position in
  place of the three counters \<^verbatim>\<open>input_movie_number\<close>, \<^verbatim>\<open>movie->current_track_number\<close>
  and \<^verbatim>\<open>output.current_track_number\<close>.
\<close>

record 'r slot =
  slot_movie :: nat
  slot_track :: nat
  slot_root :: "'r option"
  slot_in :: track_t

record ('r, 't) schedule =
  slots :: "'r slot list"
  out_tracks :: "track_t list"
  out_root :: "'r option"
  position :: nat
  watermark :: 't
  skips :: nat
  active :: nat
  history :: "transfer list"

definition movie_slots :: "nat \<Rightarrow> ('r, 'm) movie_t \<Rightarrow> 'r slot list" where
  "movie_slots k m =
     map (\<lambda>j. \<lparr>slot_movie = k, slot_track = Suc j, slot_root = root m, slot_in = track m ! j\<rparr>)
       [0 ..< length (track m)]"

fun slots_of :: "nat \<Rightarrow> ('r, 'm) movie_t list \<Rightarrow> 'r slot list" where
  "slots_of k [] = []"
| "slots_of k (m # ms) = movie_slots k m @ slots_of (Suc k) ms"

definition offset :: "('r, 'm) movie_t list \<Rightarrow> nat \<Rightarrow> nat" where
  "offset ms k = sum_list (map (\<lambda>m. length (track m)) (take k ms))"

definition place :: "('r, 'm, 't) muxer \<Rightarrow> nat" where
  "place st =
     offset (input (files st)) (input_movie_number st - 1)
       + (current_track_number (input (files st) ! (input_movie_number st - 1)) - 1)"

definition view :: "('r, 'm, 't) muxer \<Rightarrow> ('r, 't) schedule" where
  "view st =
     \<lparr>slots = slots_of 1 (input (files st)),
      out_tracks = track (output (files st)),
      out_root = root (output (files st)),
      position = place st,
      watermark = largest_dts st,
      skips = num_consecutive_sample_skip st,
      active = num_active_input_tracks st,
      history = transfers st\<rparr>"

text \<open>
  \<open>sane st\<close>: the arrays have the lengths their counters say, every input movie has a
  track, the three counters point into the arrays and at the same track, and no counter
  is at the end of its range.
\<close>

definition sane :: "('r, 'm, 't) muxer \<Rightarrow> bool" where
  "sane st =
     (let ms = input (files st); out = output (files st); n = input_movie_number st
      in ms \<noteq> [] \<and> num_input (files st) = length ms \<and>
         (\<forall>m \<in> set ms. num_tracks m = length (track m) \<and> 0 < length (track m)) \<and>
         1 \<le> n \<and> n \<le> length ms \<and>
         (\<forall>i < length ms. i \<noteq> n - 1 \<longrightarrow> current_track_number (ms ! i) = 1) \<and>
         1 \<le> current_track_number (ms ! (n - 1)) \<and>
         current_track_number (ms ! (n - 1)) \<le> length (track (ms ! (n - 1))) \<and>
         num_tracks out = length (track out) \<and>
         length (track out) = offset ms (length ms) \<and>
         current_track_number out = Suc (place st) \<and>
         offset ms (length ms) + 1 < 2 ^ 32)"

definition advance :: "('r, 't) schedule \<Rightarrow> ('r, 't) schedule" where
  "advance v = v\<lparr>position := Suc (position v) mod length (slots v)\<rparr>"

definition sched_step ::
  "('r, 'm, 's, 't::linorder) lsmash \<Rightarrow> ('r, 't) schedule \<Rightarrow> ('r, 't) schedule step" where
  "sched_step lib v =
     (let p = position v; x = slots v ! p; t = slot_in x
      in
      if reach_end_of_media_timeline t then Continue (advance v)
      else
      (case slot_root x of
         None \<Rightarrow> Abort Null_pointer
       | Some r \<Rightarrow>
      (case lsmash_get_dts_from_media_timeline lib r (track_ID t) (current_sample_number t) of
         None \<Rightarrow>
           if lsmash_check_sample_existence_in_media_timeline lib r (track_ID t)
                (current_sample_number t)
           then Abort Failed_to_get_the_DTS
           else if uint32_dec (active v) = 0
           then Break (v\<lparr>slots := (slots v)[p := x\<lparr>slot_in := t\<lparr>reach_end_of_media_timeline := True\<rparr>\<rparr>],
                        active := 0\<rparr>)
           else Continue (advance
                  (v\<lparr>slots := (slots v)[p := x\<lparr>slot_in := t\<lparr>reach_end_of_media_timeline := True\<rparr>\<rparr>],
                     active := uint32_dec (active v)\<rparr>))
       | Some dts \<Rightarrow>
           if seconds lib dts (timescale (media_param t)) \<le> watermark v \<or> skips v = active v
           then
             (case lsmash_get_sample_from_media_timeline lib r (track_ID t)
                     (current_sample_number t) of
                None \<Rightarrow> Abort Failed_to_get_sample
              | Some sample \<Rightarrow>
             (case out_root v of
                None \<Rightarrow> Abort Null_pointer
              | Some ro \<Rightarrow>
             (case lsmash_append_sample lib ro (track_ID (out_tracks v ! p)) sample of
                None \<Rightarrow> Abort Failed_to_append_a_sample
              | Some ro' \<Rightarrow>
                  Continue (advance
                    (v\<lparr>slots := (slots v)[p := x\<lparr>slot_in :=
                          t\<lparr>current_sample_number := uint32_inc (current_sample_number t)\<rparr>\<rparr>],
                       out_tracks := (out_tracks v)[p := (out_tracks v ! p)\<lparr>current_sample_number :=
                          uint32_inc (current_sample_number (out_tracks v ! p))\<rparr>],
                       out_root := Some ro',
                       watermark := LSMASH_MAX (watermark v) (seconds lib dts (timescale (media_param t))),
                       skips := 0,
                       history := history v @
                         [\<lparr>source = slot_movie x, source_track = slot_track x,
                           sample_number = current_sample_number t, sample_dts = dts,
                           target_track = Suc p\<rparr>]\<rparr>)))))
           else Continue (advance (v\<lparr>skips := uint32_inc (skips v)\<rparr>)))))"

fun map_step :: "('a \<Rightarrow> 'b) \<Rightarrow> 'a step \<Rightarrow> 'b step" where
  "map_step f (Continue a) = Continue (f a)"
| "map_step f (Break a) = Break (f a)"
| "map_step f (Abort e) = Abort e"

text \<open>
  \<open>sched_turns\<close> is to \<open>sched_step\<close> what \<open>mux_turns\<close> is to \<open>mux_step\<close>, and
  \<open>simulates a w\<close> says that the outcome \<open>w\<close> of a turn on the schedule is the view of
  the outcome \<open>a\<close> of the turn of the program.
\<close>

fun sched_turns ::
  "('r, 'm, 's, 't::linorder) lsmash \<Rightarrow> nat \<Rightarrow> ('r, 't) schedule \<Rightarrow> ('r, 't) schedule step" where
  "sched_turns lib 0 v = Continue v"
| "sched_turns lib (Suc n) v =
     (case sched_step lib v of
        Continue v' \<Rightarrow> sched_turns lib n v'
      | Break v' \<Rightarrow> Break v'
      | Abort e \<Rightarrow> Abort e)"

fun simulates :: "('r, 'm, 't) muxer step \<Rightarrow> ('r, 't) schedule step \<Rightarrow> bool" where
  "simulates (Continue st) w = (sane st \<and> w = Continue (view st))"
| "simulates (Break st) w = (sane st \<and> w = Break (view st))"
| "simulates (Abort e) w = (w = Abort e)"

text \<open>
  Slot \<open>i\<close> has \<open>ended\<close> when its track carries the mark
  \<^verbatim>\<open>reach_end_of_media_timeline\<close>; the \<open>live\<close> slots are the others. \<open>dts_of lib x n\<close> is
  what \<^verbatim>\<open>lsmash_get_dts_from_media_timeline\<close> answers for sample \<open>n\<close> of the track in
  slot \<open>x\<close>, and \<open>has_dts\<close> says that it answers for the sample the track stands at.
\<close>

definition ended :: "('r, 't) schedule \<Rightarrow> nat \<Rightarrow> bool" where
  "ended v i = reach_end_of_media_timeline (slot_in (slots v ! i))"

definition live :: "('r, 't) schedule \<Rightarrow> nat set" where
  "live v = {i. i < length (slots v) \<and> \<not> ended v i}"

definition dts_of :: "('r, 'm, 's, 't) lsmash \<Rightarrow> 'r slot \<Rightarrow> nat \<Rightarrow> nat option" where
  "dts_of lib x n =
     (case slot_root x of
        None \<Rightarrow> None
      | Some r \<Rightarrow> lsmash_get_dts_from_media_timeline lib r (track_ID (slot_in x)) n)"

definition has_dts :: "('r, 'm, 's, 't) lsmash \<Rightarrow> 'r slot \<Rightarrow> bool" where
  "has_dts lib x = (dts_of lib x (current_sample_number (slot_in x)) \<noteq> None)"

text \<open>
  \<open>behind N p d\<close> is the slot visited \<open>d\<close> turns before slot \<open>p\<close> in a round of \<open>N\<close>
  slots, and \<open>recent v k\<close> the slots of the last \<open>k\<close> turns. A schedule is \<open>fair\<close> when
  the count of active tracks is the number of live slots and the skip counter is the
  number of live slots among the slots of the turns since the last transfer, each of
  which has a sample waiting.
\<close>

definition behind :: "nat \<Rightarrow> nat \<Rightarrow> nat \<Rightarrow> nat" where
  "behind N p d = (if d \<le> p then p - d else p + N - d)"

definition recent :: "('r, 't) schedule \<Rightarrow> nat \<Rightarrow> nat set" where
  "recent v k = behind (length (slots v)) (position v) ` {1..k}"

definition fair :: "('r, 'm, 's, 't) lsmash \<Rightarrow> ('r, 't) schedule \<Rightarrow> bool" where
  "fair lib v =
     (position v < length (slots v) \<and> length (slots v) < 2 ^ 32 \<and> active v = card (live v) \<and>
      (\<exists>k \<le> length (slots v).
         skips v = card (recent v k \<inter> live v) \<and>
         (\<forall>i \<in> recent v k \<inter> live v. has_dts lib (slots v ! i))))"

text \<open>
  What a turn does to the schedule before it moves on: \<open>finish_track\<close> marks the track
  ended, \<open>take_sample\<close> transfers a sample, \<open>pass\<close> skips.
\<close>

definition on_track :: "(track_t \<Rightarrow> track_t) \<Rightarrow> ('r, 't) schedule \<Rightarrow> ('r, 't) schedule" where
  "on_track f v =
     v\<lparr>slots := (slots v)[position v :=
          (slots v ! position v)\<lparr>slot_in := f (slot_in (slots v ! position v))\<rparr>]\<rparr>"

definition finish_track :: "('r, 't) schedule \<Rightarrow> ('r, 't) schedule" where
  "finish_track v =
     (on_track (\<lambda>t. t\<lparr>reach_end_of_media_timeline := True\<rparr>) v)\<lparr>active := uint32_dec (active v)\<rparr>"

definition take_sample ::
  "('r, 'm, 's, 't::linorder) lsmash \<Rightarrow> nat \<Rightarrow> 'r \<Rightarrow> ('r, 't) schedule \<Rightarrow> ('r, 't) schedule" where
  "take_sample lib d ro v =
     (on_track (\<lambda>t. t\<lparr>current_sample_number := uint32_inc (current_sample_number t)\<rparr>) v)
       \<lparr>out_tracks := (out_tracks v)[position v := (out_tracks v ! position v)\<lparr>current_sample_number :=
            uint32_inc (current_sample_number (out_tracks v ! position v))\<rparr>],
        out_root := Some ro,
        watermark := LSMASH_MAX (watermark v)
          (seconds lib d (timescale (media_param (slot_in (slots v ! position v))))),
        skips := 0,
        history := history v @
          [\<lparr>source = slot_movie (slots v ! position v),
            source_track = slot_track (slots v ! position v),
            sample_number = current_sample_number (slot_in (slots v ! position v)),
            sample_dts = d,
            target_track = Suc (position v)\<rparr>]\<rparr>"

definition pass :: "('r, 't) schedule \<Rightarrow> ('r, 't) schedule" where
  "pass v = v\<lparr>skips := uint32_inc (skips v)\<rparr>"

text \<open>
  The measure of termination. A schedule is \<open>bounded\<close> when every track has a sample
  number, from where it stands on and below \<open>2 ^ 32\<close>, for which the library has no
  timestamp. \<open>remaining\<close> counts the samples up to the first such number, \<open>work\<close> adds
  them up over the live slots, with one more for each; \<open>gap\<close> is the number of turns to
  the next live slot and \<open>patience\<close> bounds the turns until the next transfer or end of
  a track. \<open>smaller lib\<close> orders the schedules by work, then patience.
\<close>

definition bounded :: "('r, 'm, 's, 't) lsmash \<Rightarrow> ('r, 't) schedule \<Rightarrow> bool" where
  "bounded lib v =
     (\<forall>i < length (slots v). \<exists>b.
        current_sample_number (slot_in (slots v ! i)) + b < 2 ^ 32 \<and>
        dts_of lib (slots v ! i) (current_sample_number (slot_in (slots v ! i)) + b) = None)"

definition remaining :: "('r, 'm, 's, 't) lsmash \<Rightarrow> 'r slot \<Rightarrow> nat" where
  "remaining lib x = (LEAST b. dts_of lib x (current_sample_number (slot_in x) + b) = None)"

definition weight :: "('r, 'm, 's, 't) lsmash \<Rightarrow> 'r slot \<Rightarrow> nat" where
  "weight lib x = (if reach_end_of_media_timeline (slot_in x) then 0 else Suc (remaining lib x))"

definition work :: "('r, 'm, 's, 't) lsmash \<Rightarrow> ('r, 't) schedule \<Rightarrow> nat" where
  "work lib v = sum_list (map (weight lib) (slots v))"

definition gap :: "('r, 't) schedule \<Rightarrow> nat" where
  "gap v = (LEAST d. (position v + d) mod length (slots v) \<in> live v)"

definition patience :: "('r, 't) schedule \<Rightarrow> nat" where
  "patience v = (active v - skips v) * length (slots v) + gap v"

definition smaller :: "('r, 'm, 's, 't) lsmash \<Rightarrow> (('r, 't) schedule \<times> ('r, 't) schedule) set" where
  "smaller lib = inv_image (less_than <*lex*> less_than) (\<lambda>v. (work lib v, patience v))"

text \<open>
  The conditions under which the loop is studied. \<open>wired io\<close> is what lines 385-422
  establish before the loop, for inputs that all have a track: the counters agree with
  the arrays, every track stands at its first sample and is not marked ended, the
  output has one track for each input track, and the number of tracks is below
  \<open>2 ^ 32 - 1\<close>. \<open>finite_media lib io\<close>: every input movie is open and each of its tracks
  has a sample number below \<open>2 ^ 32\<close> for which the library has no timestamp.
\<close>

definition wired :: "('r, 'm) movie_io_t \<Rightarrow> bool" where
  "wired io =
     (input io \<noteq> [] \<and> num_input io = length (input io) \<and>
      (\<forall>m \<in> set (input io).
         num_tracks m = length (track m) \<and> 0 < length (track m) \<and> current_track_number m = 1 \<and>
         (\<forall>t \<in> set (track m). current_sample_number t = 1 \<and> \<not> reach_end_of_media_timeline t)) \<and>
      num_tracks (output io) = length (track (output io)) \<and>
      length (track (output io)) = offset (input io) (length (input io)) \<and>
      (\<forall>t \<in> set (track (output io)). current_sample_number t = 1) \<and>
      offset (input io) (length (input io)) + 1 < 2 ^ 32)"

definition finite_media :: "('r, 'm, 's, 't) lsmash \<Rightarrow> ('r, 'm) movie_io_t \<Rightarrow> bool" where
  "finite_media lib io =
     (\<forall>m \<in> set (input io). \<exists>r. root m = Some r \<and>
        (\<forall>t \<in> set (track m). \<exists>n. 1 \<le> n \<and> n < 2 ^ 32 \<and>
           lsmash_get_dts_from_media_timeline lib r (track_ID t) n = None))"

text \<open>
  A library and files to run the program on. A file is a name with the timestamps of the
  samples of each of its tracks, in a time scale of one tick per second. A root handle
  is the number of the file in the list, paired with the number of tracks created in
  it; the tracks of a file are numbered from 1; no call fails but the query for the
  timestamp of a sample that does not exist; a sample is the place it was read from;
  \<open>seconds\<close> is the exact quotient.
\<close>

definition sample_library ::
  "(string \<times> nat list list) list \<Rightarrow> (nat \<times> nat, unit, (nat \<times> nat) \<times> nat \<times> nat, rat) lsmash" where
  "sample_library fs =
     \<lparr>lsmash_open_movie =
        (\<lambda>name mode.
           case mode of
             LSMASH_FILE_MODE_WRITE \<Rightarrow> Some (length fs, 0)
           | LSMASH_FILE_MODE_READ \<Rightarrow>
               map_option (\<lambda>i. (i, 0)) (List.find (\<lambda>i. fst (fs ! i) = name) [0 ..< length fs])),
      lsmash_initialize_movie_parameters =
        \<lparr>major_brand = 0, minor_version = 0, brands = [], number_of_tracks = 0\<rparr>,
      lsmash_get_movie_parameters =
        (\<lambda>r. \<lparr>major_brand = 1, minor_version = 0, brands = [1],
              number_of_tracks = length (snd (fs ! fst r))\<rparr>),
      lsmash_get_track_ID = (\<lambda>r k. k),
      lsmash_export_itunes_metadata = (\<lambda>r. Some ()),
      lsmash_get_track_parameters = (\<lambda>r t. Some \<lparr>tp_track_ID = t, tp_alternate_group = 0\<rparr>),
      lsmash_get_media_parameters =
        (\<lambda>r t. Some \<lparr>handler_type = 0, timescale = 1, mp_ISO_language = 0\<rparr>),
      lsmash_construct_timeline = (\<lambda>r t. Some r),
      lsmash_get_last_sample_delta_from_media_timeline = (\<lambda>r t. Some 1),
      lsmash_discard_boxes = (\<lambda>r. r),
      lsmash_pack_iso_language = (\<lambda>s. length s),
      lsmash_set_movie_parameters = (\<lambda>r p. Some r),
      lsmash_import_itunes_metadata = (\<lambda>r m. Some r),
      lsmash_create_track = (\<lambda>r h. (Suc (snd r), (fst r, Suc (snd r)))),
      lsmash_set_track_parameters = (\<lambda>r t p. Some r),
      lsmash_set_media_parameters = (\<lambda>r t p. Some r),
      lsmash_copy_decoder_specific_info = (\<lambda>r t r' t'. Some r),
      lsmash_get_dts_from_media_timeline =
        (\<lambda>r t n.
           if fst r < length fs \<and> 1 \<le> t \<and> t \<le> length (snd (fs ! fst r)) \<and>
              1 \<le> n \<and> n \<le> length (snd (fs ! fst r) ! (t - 1))
           then Some (snd (fs ! fst r) ! (t - 1) ! (n - 1)) else None),
      lsmash_check_sample_existence_in_media_timeline = (\<lambda>r t n. False),
      lsmash_get_sample_from_media_timeline = (\<lambda>r t n. Some (r, t, n)),
      lsmash_append_sample = (\<lambda>r t s. Some r),
      lsmash_flush_pooled_samples = (\<lambda>r t d. Some r),
      lsmash_copy_timeline_map = (\<lambda>r t r' t'. Some r),
      lsmash_finish_movie = (\<lambda>r. Some r),
      seconds = (\<lambda>d ts. of_nat d / of_nat ts),
      malloc = (\<lambda>n. True)\<rparr>"

definition sample_track :: "nat \<Rightarrow> track_t" where
  "sample_track t =
     \<lparr>track_ID = t, last_sample_delta = 1, current_sample_number = 1,
      reach_end_of_media_timeline = False,
      track_param = \<lparr>tp_track_ID = t, tp_alternate_group = 0\<rparr>,
      media_param = \<lparr>handler_type = 0, timescale = 1, mp_ISO_language = 0\<rparr>\<rparr>"

fun sample_tracks :: "nat \<Rightarrow> 'a list \<Rightarrow> track_t list" where
  "sample_tracks t [] = []"
| "sample_tracks t (x # xs) = sample_track t # sample_tracks (Suc t) xs"

fun sample_movies :: "nat \<Rightarrow> (string \<times> nat list list) list \<Rightarrow> (nat \<times> nat, unit) movie_t list" where
  "sample_movies i [] = []"
| "sample_movies i (f # fs) =
     \<lparr>root = Some (i, 0), itunes_meta_list = Some (), track = sample_tracks 1 (snd f),
      movie_param = \<lparr>major_brand = 1, minor_version = 0, brands = [1],
                     number_of_tracks = length (snd f)\<rparr>,
      num_tracks = length (snd f), current_track_number = 1\<rparr> # sample_movies (Suc i) fs"

text \<open>
  The state of \<^verbatim>\<open>io\<close> when \<^verbatim>\<open>main\<close> reaches line 422 on these files with this library.
\<close>

definition sample_io :: "(string \<times> nat list list) list \<Rightarrow> (nat \<times> nat, unit) movie_io_t" where
  "sample_io fs =
     \<lparr>output =
        \<lparr>root = Some (length fs, length (concat (map snd fs))), itunes_meta_list = None,
         track = sample_tracks 1 (concat (map snd fs)),
         movie_param = \<lparr>major_brand = 1, minor_version = 0, brands = [1], number_of_tracks = 0\<rparr>,
         num_tracks = length (concat (map snd fs)),
         current_track_number = Suc (length (concat (map snd fs)))\<rparr>,
      input = sample_movies 0 fs,
      num_input = length fs,
      track_option = map (\<lambda>f. []) fs\<rparr>"

text \<open>
  \<open>visited_track st\<close> is the input track \<^verbatim>\<open>in_track\<close> of a turn that starts in \<open>st\<close>.
\<close>

definition visited_track :: "('r, 'm, 't) muxer \<Rightarrow> track_t" where
  "visited_track st =
     track (input (files st) ! (input_movie_number st - 1))
       ! (current_track_number (input (files st) ! (input_movie_number st - 1)) - 1)"

text \<open>
  Runs, to read results off. \<open>turn_start st\<close> is what a turn that starts in \<open>st\<close> has
  before it: the input movie and the track it looks at, the skip counter, the count of
  active tracks and the number of samples transferred so far; \<open>sched_start\<close> is the same
  on a schedule. \<open>run_table lib io n\<close> lists it for the first \<open>n\<close> turns of the loop on
  \<open>io\<close>, with \<open>None\<close> from the turn on in which the loop gives up.
\<close>

definition turn_start :: "('r, 'm, 't) muxer \<Rightarrow> (nat \<times> nat) \<times> nat \<times> nat \<times> nat" where
  "turn_start st =
     ((input_movie_number st,
       current_track_number (input (files st) ! (input_movie_number st - 1))),
      num_consecutive_sample_skip st, num_active_input_tracks st, length (transfers st))"

definition sched_start :: "('r, 't) schedule \<Rightarrow> (nat \<times> nat) \<times> nat \<times> nat \<times> nat" where
  "sched_start v =
     ((slot_movie (slots v ! position v), slot_track (slots v ! position v)),
      skips v, active v, length (history v))"

definition run_table ::
  "('r, 'm, 's, 't::{linorder,zero}) lsmash \<Rightarrow> ('r, 'm) movie_io_t \<Rightarrow> nat \<Rightarrow>
   ((nat \<times> nat) \<times> nat \<times> nat \<times> nat) option list" where
  "run_table lib io n =
     map (\<lambda>k. map_option turn_start (reached (mux_turns lib k (start_muxing io)))) [0 ..< n]"

text \<open>
  \<open>sent e\<close>: the input movie, the track, the number and the timestamp of a transferred
  sample.
\<close>

definition sent :: "transfer \<Rightarrow> nat \<times> nat \<times> nat \<times> nat" where
  "sent e = (source e, source_track e, sample_number e, sample_dts e)"

text \<open>
  Two runs: \<open>scenario\<close> has two files of one track each, with the timestamps 0, 1, 2 and
  0, 2; \<open>uneven\<close> has a track whose second sample comes late beside a track of five
  early samples.
\<close>

definition scenario :: "(string \<times> nat list list) list" where
  "scenario = [(''a'', [[0, 1, 2]]), (''b'', [[0, 2]])]"

definition uneven :: "(string \<times> nat list list) list" where
  "uneven = [(''a'', [[10, 20]]), (''b'', [[1, 2, 3, 4, 5]])]"

text \<open>
  The samples of one output track. \<open>slot_log v i\<close> lists, in the order of their
  transfer, the samples that went to output track \<open>i + 1\<close>, each with the input movie
  and track it came from. Slot \<open>i\<close> is \<open>in_order\<close> when they are the samples 1, 2, ...
  of its own track up to where its cursor stands, the cursor of the output track stands
  at the same number, the library has a timestamp for every sample below the cursor,
  and has none for the sample at the cursor once the track is marked ended. A schedule
  is \<open>logged\<close> when every slot is in order. \<open>sample_count lib x\<close> is the number of
  samples of the track in slot \<open>x\<close>: the first \<open>n\<close> for which the library has no
  timestamp of sample \<open>n + 1\<close>.
\<close>

definition slot_log :: "('r, 't) schedule \<Rightarrow> nat \<Rightarrow> (nat \<times> nat \<times> nat) list" where
  "slot_log v i =
     map (\<lambda>e. (source e, source_track e, sample_number e))
       (filter (\<lambda>e. target_track e = Suc i) (history v))"

definition in_order :: "('r, 'm, 's, 't) lsmash \<Rightarrow> ('r, 't) schedule \<Rightarrow> nat \<Rightarrow> bool" where
  "in_order lib v i =
     (1 \<le> current_sample_number (slot_in (slots v ! i)) \<and>
      current_sample_number (out_tracks v ! i) = current_sample_number (slot_in (slots v ! i)) \<and>
      slot_log v i =
        map (\<lambda>k. (slot_movie (slots v ! i), slot_track (slots v ! i), k))
          [1 ..< current_sample_number (slot_in (slots v ! i))] \<and>
      (\<forall>k. 1 \<le> k \<and> k < current_sample_number (slot_in (slots v ! i)) \<longrightarrow>
         dts_of lib (slots v ! i) k \<noteq> None) \<and>
      (ended v i \<longrightarrow>
         dts_of lib (slots v ! i) (current_sample_number (slot_in (slots v ! i))) = None))"

definition logged :: "('r, 'm, 's, 't) lsmash \<Rightarrow> ('r, 't) schedule \<Rightarrow> bool" where
  "logged lib v =
     (length (out_tracks v) = length (slots v) \<and> (\<forall>i < length (slots v). in_order lib v i))"

definition sample_count :: "('r, 'm, 's, 't) lsmash \<Rightarrow> 'r slot \<Rightarrow> nat" where
  "sample_count lib x = (LEAST n. dts_of lib x (Suc n) = None)"

text \<open>
  \<open>exit_status\<close> is the value \<^verbatim>\<open>main\<close> returns when it returns before the muxing loop.
\<close>

fun exit_status :: "'a launch \<Rightarrow> int option" where
  "exit_status (Usage c) = Some c"
| "exit_status (Error es) = Some (- 1)"
| "exit_status (Muxing io) = None"

text \<open>
  \<open>requested raw defaults\<close> is \<^verbatim>\<open>io\<close> as \<^verbatim>\<open>parse_track_option\<close> finds it for one input
  with as many tracks as \<open>defaults\<close> has entries, the alternate group and the language
  of each track, and one raw option text \<open>raw\<close>, which \<^verbatim>\<open>parse_cli_option\<close> puts in
  the first cell.
\<close>

definition requested :: "string \<Rightarrow> (int \<times> nat) list \<Rightarrow> ('r, 'm) movie_io_t" where
  "requested raw defaults =
     \<lparr>output = zero_movie, input = [zero_movie\<lparr>num_tracks := length defaults\<rparr>], num_input = 1,
      track_option =
        [map (\<lambda>j. \<lparr>raw_track_option = (if j = 0 then Some raw else None),
                   alternate_group = fst (defaults ! j), ISO_language = snd (defaults ! j)\<rparr>)
           [0 ..< length defaults]]\<rparr>"

text \<open>A file of three tracks with one sample each.\<close>

definition three :: "(string \<times> nat list list) list" where
  "three = [(''a'', [[0], [0], [0]])]"

subsection \<open>The primary brand\<close>

lemma count_major_brand_eq:
  "count_major_brand i k j ys c =
     (if k \<in> set (take (i - j) ys) then None else Some (c + count_list ys k))"
proof (induction ys arbitrary: j c k)
  case Nil
  then show ?case by simp
next
  case (Cons y ys)
  note IH = Cons [of _ "Suc j"]
  show ?case
  proof (cases "i \<le> j")
    case True
    then show ?thesis by (cases "k = y") (simp_all add: IH)
  next
    case False
    then have "i - j = Suc (i - Suc j)" by simp
    then show ?thesis using False by (cases "k = y") (simp_all add: IH)
  qed
qed

lemma collect_major_brands_eq:
  "collect_major_brands (length pre) todo (pre @ todo) found =
     found @ map (\<lambda>x. (x, count_list (pre @ todo) x)) (unseen_from pre todo)"
proof (induction todo arbitrary: pre found)
  case Nil
  then show ?case by simp
next
  case (Cons x todo)
  have step: "collect_major_brands (Suc (length pre)) todo (pre @ x # todo) fnd =
      fnd @ map (\<lambda>y. (y, count_list (pre @ x # todo) y)) (unseen_from (pre @ [x]) todo)" for fnd
    using Cons [of "pre @ [x]" fnd] by simp
  show ?case
    by (cases "x \<in> set pre") (simp_all add: count_major_brand_eq step)
qed

lemma set_unseen_from: "set (unseen_from seen xs) = set xs - set seen"
  by (induction xs arbitrary: seen) auto

lemma find_unseen_from:
  "\<forall>s \<in> set seen. \<not> P s \<Longrightarrow> List.find P (unseen_from seen xs) = List.find P xs"
  by (induction xs arbitrary: seen) auto

lemma ex_greatest: "ys \<noteq> [] \<Longrightarrow> \<exists>x \<in> set ys. \<forall>z \<in> set ys. (f z :: nat) \<le> f x"
proof -
  assume "ys \<noteq> []"
  then have "Max (f ` set ys) \<in> f ` set ys" by (intro Max_in) auto
  then obtain x where "x \<in> set ys" "f x = Max (f ` set ys)" by auto
  then show ?thesis by (intro bexI [of _ x]) auto
qed

lemma pick_most_used_eq:
  "pick_most_used (map (\<lambda>x. (x, f x)) ys) most out =
     (case List.find (\<lambda>x. f x > most \<and> (\<forall>y \<in> set ys. f y \<le> f x)) ys of
        None \<Rightarrow> out | Some x \<Rightarrow> x)"
proof (induction ys arbitrary: most out)
  case Nil
  then show ?case by simp
next
  case (Cons y ys)
  show ?case
  proof (cases "f y > most")
    case big: True
    show ?thesis
    proof (cases "\<forall>z \<in> set ys. f z \<le> f y")
      case True
      then have "List.find (\<lambda>x. f y < f x \<and> (\<forall>z \<in> set ys. f z \<le> f x)) ys = None"
        by (auto simp: find_None_iff)
      with True big show ?thesis by (simp add: Cons)
    next
      case False
      then have "ys \<noteq> []" by auto
      from ex_greatest [OF this, of f] obtain x
        where x: "x \<in> set ys" "\<forall>z \<in> set ys. f z \<le> f x"
        by blast
      with False have "f y < f x" by (meson leI le_trans)
      with x have "List.find (\<lambda>x. f y < f x \<and> (\<forall>z \<in> set ys. f z \<le> f x)) ys \<noteq> None"
        unfolding find_None_iff by blast
      then obtain w
        where w: "List.find (\<lambda>x. f y < f x \<and> (\<forall>z \<in> set ys. f z \<le> f x)) ys = Some w"
        by auto
      have "List.find (\<lambda>x. most < f x \<and> (\<forall>z \<in> set (y # ys). f z \<le> f x)) ys
          = List.find (\<lambda>x. f y < f x \<and> (\<forall>z \<in> set ys. f z \<le> f x)) ys"
        using False big by (intro find_cong refl) force
      with False big w show ?thesis by (auto simp: Cons)
    qed
  next
    case False
    have "List.find (\<lambda>x. most < f x \<and> (\<forall>z \<in> set (y # ys). f z \<le> f x)) ys
        = List.find (\<lambda>x. most < f x \<and> (\<forall>z \<in> set ys. f z \<le> f x)) ys"
      using False by (intro find_cong refl) force
    with False show ?thesis by (simp add: Cons)
  qed
qed

lemma brand_key_output:
  "brand_key (output_movie_parameters initial params) =
     pick_most_used (collect_major_brands 0 (map brand_key params) (map brand_key params) []) 0
       (brand_key initial)"
  by (simp add: output_movie_parameters_def Let_def brand_key_def)

lemma first_most_used:
  assumes "params \<noteq> []"
  shows "List.find (most_used (map brand_key params)) (map brand_key params)
    = Some (brand_key (output_movie_parameters initial params))"
proof -
  let ?keys = "map brand_key params"
  let ?cnt = "count_list ?keys"
  let ?P = "\<lambda>x. 0 < ?cnt x \<and> (\<forall>y \<in> set (unseen_from [] ?keys). ?cnt y \<le> ?cnt x)"
  have found: "collect_major_brands 0 ?keys ?keys []
      = map (\<lambda>x. (x, ?cnt x)) (unseen_from [] ?keys)"
    using collect_major_brands_eq [of "[]" ?keys "[]"] by simp
  have "List.find ?P (unseen_from [] ?keys) = List.find ?P ?keys"
    by (rule find_unseen_from) simp
  also have "\<dots> = List.find (most_used ?keys) ?keys"
  proof (intro find_cong refl)
    fix k assume "k \<in> set ?keys"
    then have "0 < ?cnt k" using count_list_0_iff [of ?keys k] by simp
    then show "?P k = most_used ?keys k"
      by (simp add: most_used_def set_unseen_from)
  qed
  finally have eq: "List.find ?P (unseen_from [] ?keys) = List.find (most_used ?keys) ?keys" .
  from assms have "?keys \<noteq> []" by simp
  from ex_greatest [OF this, of ?cnt] have "List.find (most_used ?keys) ?keys \<noteq> None"
    unfolding find_None_iff most_used_def by blast
  then obtain w where w: "List.find (most_used ?keys) ?keys = Some w" by auto
  have "brand_key (output_movie_parameters initial params) = w"
    unfolding brand_key_output found pick_most_used_eq eq w by simp
  then show ?thesis using w by simp
qed

text \<open>
  Claim C6. For a non-empty list of inputs, the primary brand and minor version written
  to the output are those of the first input, in input order, whose pair of brand and
  minor version no other pair outnumbers: the largest group wins, and among groups of
  equal size the one met first. Three inputs \<open>(A, 0)\<close> followed by two \<open>(B, 1)\<close> give
  \<open>(A, 0)\<close>, and so do two \<open>(A, 0)\<close> followed by two \<open>(B, 0)\<close>.
\<close>

theorem major_brand_is_first_most_used:
  "(params \<noteq> [] \<longrightarrow>
      List.find (most_used (map brand_key params)) (map brand_key params)
        = Some (brand_key (output_movie_parameters initial params))) \<and>
   (map brand_key ps = [(A, 0), (A, 0), (A, 0), (B, 1), (B, 1)] \<longrightarrow>
      brand_key (output_movie_parameters initial ps) = (A, 0)) \<and>
   (map brand_key qs = [(A, 0), (A, 0), (B, 0), (B, 0)] \<longrightarrow>
      brand_key (output_movie_parameters initial qs) = (A, 0))"
proof (intro conjI impI)
  assume "params \<noteq> []"
  then show "List.find (most_used (map brand_key params)) (map brand_key params)
      = Some (brand_key (output_movie_parameters initial params))"
    by (rule first_most_used)
next
  assume "map brand_key ps = [(A, 0), (A, 0), (A, 0), (B, 1), (B, 1)]"
  then show "brand_key (output_movie_parameters initial ps) = (A, 0)"
    by (simp add: brand_key_output)
next
  assume "map brand_key qs = [(A, 0), (A, 0), (B, 0), (B, 0)]"
  then show "brand_key (output_movie_parameters initial qs) = (A, 0)"
    by (simp add: brand_key_output)
qed


theorem major_brand_is_first_most_used_witness:
  "List.find
     (most_used (map brand_key
        [\<lparr>major_brand = 1, minor_version = 0, brands = [], number_of_tracks = 1\<rparr>,
         \<lparr>major_brand = 1, minor_version = 0, brands = [], number_of_tracks = 1\<rparr>,
         \<lparr>major_brand = 1, minor_version = 0, brands = [], number_of_tracks = 1\<rparr>,
         \<lparr>major_brand = 2, minor_version = 1, brands = [], number_of_tracks = 1\<rparr>,
         \<lparr>major_brand = 2, minor_version = 1, brands = [], number_of_tracks = 1\<rparr>]))
     [(1, 0), (1, 0), (1, 0), (2, 1), (2, 1)] = Some (1, 0) \<and>
   brand_key (output_movie_parameters
       \<lparr>major_brand = 0, minor_version = 0, brands = [], number_of_tracks = 0\<rparr>
       [\<lparr>major_brand = 1, minor_version = 0, brands = [], number_of_tracks = 1\<rparr>,
        \<lparr>major_brand = 1, minor_version = 0, brands = [], number_of_tracks = 1\<rparr>,
        \<lparr>major_brand = 1, minor_version = 0, brands = [], number_of_tracks = 1\<rparr>,
        \<lparr>major_brand = 2, minor_version = 1, brands = [], number_of_tracks = 1\<rparr>,
        \<lparr>major_brand = 2, minor_version = 1, brands = [], number_of_tracks = 1\<rparr>]) = (1, 0) \<and>
   brand_key (output_movie_parameters
       \<lparr>major_brand = 0, minor_version = 0, brands = [], number_of_tracks = 0\<rparr>
       [\<lparr>major_brand = 1, minor_version = 0, brands = [], number_of_tracks = 1\<rparr>,
        \<lparr>major_brand = 1, minor_version = 0, brands = [], number_of_tracks = 1\<rparr>,
        \<lparr>major_brand = 2, minor_version = 0, brands = [], number_of_tracks = 1\<rparr>,
        \<lparr>major_brand = 2, minor_version = 0, brands = [], number_of_tracks = 1\<rparr>]) = (1, 0)"
  using major_brand_is_first_most_used
    [of "[\<lparr>major_brand = 1, minor_version = 0, brands = [], number_of_tracks = 1\<rparr>,
         \<lparr>major_brand = 1, minor_version = 0, brands = [], number_of_tracks = 1\<rparr>,
         \<lparr>major_brand = 1, minor_version = 0, brands = [], number_of_tracks = 1\<rparr>,
         \<lparr>major_brand = 2, minor_version = 1, brands = [], number_of_tracks = 1\<rparr>,
         \<lparr>major_brand = 2, minor_version = 1, brands = [], number_of_tracks = 1\<rparr>]"
        "\<lparr>major_brand = 0, minor_version = 0, brands = [], number_of_tracks = 0\<rparr>"
        "[\<lparr>major_brand = 1, minor_version = 0, brands = [], number_of_tracks = 1\<rparr>,
         \<lparr>major_brand = 1, minor_version = 0, brands = [], number_of_tracks = 1\<rparr>,
         \<lparr>major_brand = 1, minor_version = 0, brands = [], number_of_tracks = 1\<rparr>,
         \<lparr>major_brand = 2, minor_version = 1, brands = [], number_of_tracks = 1\<rparr>,
         \<lparr>major_brand = 2, minor_version = 1, brands = [], number_of_tracks = 1\<rparr>]"
        1 2
        "[\<lparr>major_brand = 1, minor_version = 0, brands = [], number_of_tracks = 1\<rparr>,
         \<lparr>major_brand = 1, minor_version = 0, brands = [], number_of_tracks = 1\<rparr>,
         \<lparr>major_brand = 2, minor_version = 0, brands = [], number_of_tracks = 1\<rparr>,
         \<lparr>major_brand = 2, minor_version = 0, brands = [], number_of_tracks = 1\<rparr>]"]
  by (simp add: brand_key_def)

subsection \<open>The compatible brands\<close>

lemma remdups_snoc: "remdups (xs @ [x]) = filter (\<lambda>y. y \<noteq> x) (remdups xs) @ [x]"
  by (induction xs) auto

lemma first_seen_Cons: "first_seen (x # xs) = x # filter (\<lambda>y. y \<noteq> x) (first_seen xs)"
  by (simp add: first_seen_def remdups_snoc rev_filter)

lemma dedup_brands_eq:
  "dedup_brands bs out =
     out @ filter (\<lambda>b. b \<notin> set out) (first_seen (filter (\<lambda>b. b \<noteq> 0) bs))"
proof (induction bs arbitrary: out)
  case Nil
  then show ?case by (simp add: first_seen_def)
next
  case (Cons b bs)
  let ?fs = "first_seen (filter (\<lambda>b. b \<noteq> 0) bs)"
  show ?case
  proof (cases "b = 0")
    case True
    then show ?thesis by (simp add: Cons)
  next
    case nz: False
    then have unfold: "first_seen (filter (\<lambda>b. b \<noteq> 0) (b # bs)) = b # filter (\<lambda>y. y \<noteq> b) ?fs"
      using first_seen_Cons [of b "filter (\<lambda>b. b \<noteq> 0) bs"] by simp
    show ?thesis
    proof (cases "b \<in> set out")
      case True
      then have "filter (\<lambda>x. x \<notin> set out) (filter (\<lambda>y. y \<noteq> b) ?fs)
          = filter (\<lambda>x. x \<notin> set out) ?fs"
        by (auto intro: filter_cong)
      with True nz show ?thesis
        unfolding unfold by (simp add: Cons)
    next
      case False
      have "filter (\<lambda>x. x \<notin> set out) (filter (\<lambda>y. y \<noteq> b) ?fs)
          = filter (\<lambda>x. x \<notin> set (out @ [b])) ?fs"
        by (auto intro: filter_cong)
      with False nz show ?thesis
        unfolding unfold by (simp add: Cons)
    qed
  qed
qed

lemma brands_output:
  "brands (output_movie_parameters initial params)
     = first_seen (filter (\<lambda>b. b \<noteq> 0) (gather_input_brands params))"
  by (simp add: output_movie_parameters_def Let_def dedup_brands_eq)

text \<open>
  Claim C7, as stated, fails: a compatible brand equal to zero is left out of the output
  (line 215). One input with the brands 0 and 5 gives the output brands 5 alone, while
  the union of the tags without repetitions is 0, 5.
\<close>

theorem compatible_brands_counterexample:
  "brands (output_movie_parameters
      \<lparr>major_brand = 0, minor_version = 0, brands = [], number_of_tracks = 0\<rparr>
      [\<lparr>major_brand = 1, minor_version = 0, brands = [0, 5], number_of_tracks = 1\<rparr>]) = [5] \<and>
   first_seen (gather_input_brands
      [\<lparr>major_brand = 1, minor_version = 0, brands = [0, 5], number_of_tracks = 1\<rparr>]) = [0, 5]"
  by (simp add: output_movie_parameters_def Let_def gather_input_brands_def first_seen_def)

text \<open>
  Claim C7, amended. The compatible brands of the output are the non-zero compatible
  brands of all inputs, in input order, without repetitions and each at the place of its
  first occurrence: no brand occurs twice, and the brands that occur are those of the
  inputs other than zero. Inputs with the non-zero brands \<open>X, Y\<close> and \<open>Y, Z\<close> give
  \<open>X, Y, Z\<close>.
\<close>

theorem compatible_brands_first_seen_nonzero:
  "brands (output_movie_parameters initial params)
     = first_seen (filter (\<lambda>b. b \<noteq> 0) (gather_input_brands params)) \<and>
   distinct (brands (output_movie_parameters initial params)) \<and>
   set (brands (output_movie_parameters initial params))
     = set (gather_input_brands params) - {0} \<and>
   (X \<noteq> 0 \<and> Y \<noteq> 0 \<and> Z \<noteq> 0 \<and> distinct [X, Y, Z] \<and> map brands ps = [[X, Y], [Y, Z]] \<longrightarrow>
      brands (output_movie_parameters initial ps) = [X, Y, Z])"
proof (intro conjI impI)
  show "brands (output_movie_parameters initial params)
      = first_seen (filter (\<lambda>b. b \<noteq> 0) (gather_input_brands params))"
    by (rule brands_output)
  show "distinct (brands (output_movie_parameters initial params))"
    by (simp add: brands_output first_seen_def)
  show "set (brands (output_movie_parameters initial params))
      = set (gather_input_brands params) - {0}"
    by (auto simp: brands_output first_seen_def)
next
  assume "X \<noteq> 0 \<and> Y \<noteq> 0 \<and> Z \<noteq> 0 \<and> distinct [X, Y, Z] \<and> map brands ps = [[X, Y], [Y, Z]]"
  then show "brands (output_movie_parameters initial ps) = [X, Y, Z]"
    by (auto simp: brands_output first_seen_def gather_input_brands_def)
qed

theorem compatible_brands_first_seen_nonzero_witness:
  "brands (output_movie_parameters
      \<lparr>major_brand = 0, minor_version = 0, brands = [], number_of_tracks = 0\<rparr>
      [\<lparr>major_brand = 1, minor_version = 0, brands = [1, 2], number_of_tracks = 1\<rparr>,
       \<lparr>major_brand = 1, minor_version = 0, brands = [2, 3], number_of_tracks = 1\<rparr>]) = [1, 2, 3]"
  using compatible_brands_first_seen_nonzero
    [of "\<lparr>major_brand = 0, minor_version = 0, brands = [], number_of_tracks = 0\<rparr>" "[]" 1 2 3
        "[\<lparr>major_brand = 1, minor_version = 0, brands = [1, 2], number_of_tracks = 1\<rparr>,
          \<lparr>major_brand = 1, minor_version = 0, brands = [2, 3], number_of_tracks = 1\<rparr>]"]
  by simp

subsection \<open>The loop walks the slots in a row\<close>

lemma offset_0 [simp]: "offset ms 0 = 0"
  by (simp add: offset_def)

lemma offset_Cons_Suc [simp]: "offset (m # ms) (Suc k) = length (track m) + offset ms k"
  by (simp add: offset_def)

lemma offset_Suc: "k < length ms \<Longrightarrow> offset ms (Suc k) = offset ms k + length (track (ms ! k))"
  by (simp add: offset_def take_Suc_conv_app_nth)

lemma length_movie_slots [simp]: "length (movie_slots k m) = length (track m)"
  by (simp add: movie_slots_def)

lemma length_slots_of: "length (slots_of k ms) = offset ms (length ms)"
  by (induction ms arbitrary: k) simp_all

lemma offset_le: "i \<le> j \<Longrightarrow> offset ms i \<le> offset ms j"
proof (induction ms arbitrary: i j)
  case Nil
  then show ?case by (simp add: offset_def)
next
  case (Cons m ms)
  show ?case
  proof (cases i)
    case 0
    then show ?thesis by simp
  next
    case (Suc i')
    with Cons.prems obtain j' where "j = Suc j'" "i' \<le> j'" by (cases j) auto
    with Suc Cons.IH [of i' j'] show ?thesis by simp
  qed
qed

lemma offset_inside:
  "i < length ms \<Longrightarrow> j < length (track (ms ! i)) \<Longrightarrow> offset ms i + j < offset ms (length ms)"
proof -
  assume a: "i < length ms" "j < length (track (ms ! i))"
  then have "offset ms i + j < offset ms (Suc i)" by (simp add: offset_Suc)
  also have "\<dots> \<le> offset ms (length ms)" using a by (intro offset_le) simp
  finally show ?thesis .
qed

lemma slots_of_nth:
  "i < length ms \<Longrightarrow> j < length (track (ms ! i)) \<Longrightarrow>
   slots_of k ms ! (offset ms i + j) =
     \<lparr>slot_movie = k + i, slot_track = Suc j, slot_root = root (ms ! i), slot_in = track (ms ! i) ! j\<rparr>"
proof (induction ms arbitrary: i k)
  case Nil
  then show ?case by simp
next
  case (Cons m ms)
  show ?case
  proof (cases i)
    case 0
    with Cons.prems show ?thesis by (simp add: nth_append movie_slots_def)
  next
    case (Suc i')
    with Cons.prems Cons.IH [of i' "Suc k"] show ?thesis
      by (simp add: nth_append add.assoc)
  qed
qed

lemma movie_slots_update:
  "j < length (track m) \<Longrightarrow> root m' = root m \<Longrightarrow> track m' = (track m)[j := t] \<Longrightarrow>
   movie_slots k m' =
     (movie_slots k m)[j := \<lparr>slot_movie = k, slot_track = Suc j, slot_root = root m, slot_in = t\<rparr>]"
  by (rule nth_equalityI) (auto simp: movie_slots_def nth_list_update)

lemma slots_of_update:
  "i < length ms \<Longrightarrow> j < length (track (ms ! i)) \<Longrightarrow> root m' = root (ms ! i) \<Longrightarrow>
   track m' = (track (ms ! i))[j := t] \<Longrightarrow>
   slots_of k (ms[i := m']) =
     (slots_of k ms)[offset ms i + j :=
        \<lparr>slot_movie = k + i, slot_track = Suc j, slot_root = root (ms ! i), slot_in = t\<rparr>]"
proof (induction ms arbitrary: i k)
  case Nil
  then show ?case by simp
next
  case (Cons m ms)
  show ?case
  proof (cases i)
    case 0
    with Cons.prems movie_slots_update [of j m m' t k] show ?thesis
      by (simp add: list_update_append)
  next
    case (Suc i')
    with Cons.prems Cons.IH [of i' "Suc k"] show ?thesis
      by (simp add: list_update_append add.assoc)
  qed
qed

lemma slots_of_same:
  "i < length ms \<Longrightarrow> root m' = root (ms ! i) \<Longrightarrow> track m' = track (ms ! i) \<Longrightarrow>
   slots_of k (ms[i := m']) = slots_of k ms"
proof (induction ms arbitrary: i k)
  case Nil
  then show ?case by simp
next
  case (Cons m ms)
  show ?case
  proof (cases i)
    case 0
    with Cons.prems show ?thesis by (simp add: movie_slots_def)
  next
    case (Suc i')
    with Cons.prems Cons.IH [of i' "Suc k"] show ?thesis by simp
  qed
qed

lemma offset_update:
  "length (track m') = length (track (ms ! i)) \<Longrightarrow> i < length ms \<Longrightarrow>
   offset (ms[i := m']) k = offset ms k"
proof (induction ms arbitrary: i k)
  case Nil
  then show ?case by simp
next
  case (Cons m ms)
  show ?case
  proof (cases k)
    case 0
    then show ?thesis by simp
  next
    case (Suc k')
    show ?thesis
    proof (cases i)
      case 0
      with Suc Cons.prems show ?thesis by simp
    next
      case i: (Suc i')
      with Suc Cons.prems Cons.IH [of i' k'] show ?thesis by simp
    qed
  qed
qed

lemma sane_current:
  assumes "sane st"
  shows "input_movie_number st - 1 < length (input (files st))"
    and "1 \<le> input_movie_number st"
    and "input_movie_number st \<le> length (input (files st))"
    and "1 \<le> current_track_number (input (files st) ! (input_movie_number st - 1))"
    and "current_track_number (input (files st) ! (input_movie_number st - 1))
           \<le> length (track (input (files st) ! (input_movie_number st - 1)))"
    and "num_tracks (input (files st) ! (input_movie_number st - 1))
           = length (track (input (files st) ! (input_movie_number st - 1)))"
    and "num_input (files st) = length (input (files st))"
  using assms by (auto simp: sane_def Let_def)

lemma sane_output:
  assumes "sane st"
  shows "num_tracks (output (files st)) = length (track (output (files st)))"
    and "length (track (output (files st))) = offset (input (files st)) (length (input (files st)))"
    and "current_track_number (output (files st)) = Suc (place st)"
    and "offset (input (files st)) (length (input (files st))) + 1 < 2 ^ 32"
  using assms by (auto simp: sane_def Let_def)

lemma place_less:
  assumes "sane st"
  shows "place st < offset (input (files st)) (length (input (files st)))"
proof -
  let ?ms = "input (files st)" and ?n = "input_movie_number st"
  have "offset ?ms (?n - 1) + (current_track_number (?ms ! (?n - 1)) - 1) < offset ?ms (length ?ms)"
    using sane_current [OF assms] by (intro offset_inside) auto
  then show ?thesis by (simp add: place_def)
qed

lemma element_movie:
  "sane st \<Longrightarrow> element (input (files st)) (input_movie_number st)
     = Some (input (files st) ! (input_movie_number st - 1))"
  using sane_current [of st] by (simp add: element_def)

lemma element_track:
  "sane st \<Longrightarrow>
   element (track (input (files st) ! (input_movie_number st - 1)))
     (current_track_number (input (files st) ! (input_movie_number st - 1)))
   = Some (track (input (files st) ! (input_movie_number st - 1))
       ! (current_track_number (input (files st) ! (input_movie_number st - 1)) - 1))"
  using sane_current [of st] by (simp add: element_def)

lemma element_out:
  "sane st \<Longrightarrow>
   element (track (output (files st))) (current_track_number (output (files st)))
     = Some (track (output (files st)) ! place st)"
  using sane_output [of st] place_less [of st] by (simp add: element_def)

lemma slot_at_place:
  assumes "sane st"
  shows "slots (view st) ! place st =
     \<lparr>slot_movie = input_movie_number st,
      slot_track = current_track_number (input (files st) ! (input_movie_number st - 1)),
      slot_root = root (input (files st) ! (input_movie_number st - 1)),
      slot_in = track (input (files st) ! (input_movie_number st - 1))
        ! (current_track_number (input (files st) ! (input_movie_number st - 1)) - 1)\<rparr>"
proof -
  let ?ms = "input (files st)" and ?n = "input_movie_number st"
  let ?c = "current_track_number (?ms ! (?n - 1))"
  have "slots_of 1 ?ms ! (offset ?ms (?n - 1) + (?c - 1)) =
     \<lparr>slot_movie = 1 + (?n - 1), slot_track = Suc (?c - 1), slot_root = root (?ms ! (?n - 1)),
      slot_in = track (?ms ! (?n - 1)) ! (?c - 1)\<rparr>"
    using sane_current [OF assms] by (intro slots_of_nth) auto
  then show ?thesis using sane_current [OF assms] by (simp add: view_def place_def)
qed

lemma length_slots_view: "length (slots (view st)) = offset (input (files st)) (length (input (files st)))"
  by (simp add: view_def length_slots_of)

lemma update_in_track:
  assumes "sane st"
    and st'_def: "st' = update_movie (update_current_track f) st"
  shows "sane st'"
    and "place st' = place st"
    and "view st' = (view st)\<lparr>slots := (slots (view st))[place st :=
           (slots (view st) ! place st)\<lparr>slot_in := f (slot_in (slots (view st) ! place st))\<rparr>]\<rparr>"
proof -
  let ?ms = "input (files st)" and ?n = "input_movie_number st"
  let ?cur = "?ms ! (?n - 1)"
  let ?c = "current_track_number ?cur"
  let ?cur' = "update_current_track f ?cur"
  note cur = sane_current [OF assms(1)]
  have files': "input (files st') = ?ms[?n - 1 := ?cur']" "output (files st') = output (files st)"
    "num_input (files st') = num_input (files st)" "input_movie_number st' = ?n"
    "largest_dts st' = largest_dts st" "num_consecutive_sample_skip st' = num_consecutive_sample_skip st"
    "num_active_input_tracks st' = num_active_input_tracks st" "transfers st' = transfers st"
    by (simp_all add: st'_def update_movie_def)
  have cur': "track ?cur' = (track ?cur)[?c - 1 := f (track ?cur ! (?c - 1))]"
    "root ?cur' = root ?cur" "current_track_number ?cur' = ?c" "num_tracks ?cur' = num_tracks ?cur"
    by (simp_all add: update_current_track_def)
  have off: "offset (?ms[?n - 1 := ?cur']) k = offset ?ms k" for k
    using cur by (intro offset_update) (simp_all add: cur' del: One_nat_def)
  show place: "place st' = place st"
    using cur by (simp add: place_def files' off cur' del: One_nat_def)
  have mem: "m \<in> set (?ms[?n - 1 := ?cur']) \<Longrightarrow> m = ?cur' \<or> m \<in> set ?ms" for m
    using set_update_subset_insert [of ?ms "?n - 1" ?cur'] by auto
  have nth': "(?ms[?n - 1 := ?cur']) ! i = (if i = ?n - 1 then ?cur' else ?ms ! i)" if "i < length ?ms" for i
    using that by (simp add: nth_list_update del: One_nat_def)
  show "sane st'"
    using assms(1) cur unfolding sane_def Let_def
    by (auto simp: place files' cur' nth' off simp del: One_nat_def dest!: mem)
  have "slots_of 1 (?ms[?n - 1 := ?cur']) =
     (slots_of 1 ?ms)[offset ?ms (?n - 1) + (?c - 1) :=
        \<lparr>slot_movie = 1 + (?n - 1), slot_track = Suc (?c - 1), slot_root = root ?cur,
         slot_in = f (track ?cur ! (?c - 1))\<rparr>]"
    using cur by (intro slots_of_update) (auto simp: cur' simp del: One_nat_def)
  then show "view st' = (view st)\<lparr>slots := (slots (view st))[place st :=
           (slots (view st) ! place st)\<lparr>slot_in := f (slot_in (slots (view st) ! place st))\<rparr>]\<rparr>"
    using cur unfolding slot_at_place [OF assms(1)]
    by (simp add: view_def files' place place_def [of st] del: One_nat_def)
qed

lemma same_files:
  assumes "files st' = files st" "input_movie_number st' = input_movie_number st"
  shows "sane st' = sane st" and "place st' = place st"
  using assms by (simp_all add: sane_def place_def)

lemma update_out_track:
  assumes "sane st"
    and st'_def: "st' = update_output (update_current_track f) st"
  shows "sane st'"
    and "place st' = place st"
    and "view st' = (view st)\<lparr>out_tracks := (out_tracks (view st))[place st :=
           f (out_tracks (view st) ! place st)]\<rparr>"
proof -
  let ?out = "output (files st)"
  note out = sane_output [OF assms(1)]
  have files': "input (files st') = input (files st)"
    "output (files st') = update_current_track f ?out"
    "num_input (files st') = num_input (files st)" "input_movie_number st' = input_movie_number st"
    "largest_dts st' = largest_dts st" "num_consecutive_sample_skip st' = num_consecutive_sample_skip st"
    "num_active_input_tracks st' = num_active_input_tracks st" "transfers st' = transfers st"
    by (simp_all add: st'_def update_output_def)
  have out': "track (update_current_track f ?out) = (track ?out)[place st := f (track ?out ! place st)]"
    "root (update_current_track f ?out) = root ?out"
    "current_track_number (update_current_track f ?out) = current_track_number ?out"
    "num_tracks (update_current_track f ?out) = num_tracks ?out"
    using out by (simp_all add: update_current_track_def)
  show place: "place st' = place st"
    by (simp add: place_def files')
  show "sane st'"
    using assms(1) unfolding sane_def Let_def
    by (simp add: place files' out')
  show "view st' = (view st)\<lparr>out_tracks := (out_tracks (view st))[place st :=
           f (out_tracks (view st) ! place st)]\<rparr>"
    by (simp add: view_def files' out' place)
qed

lemma update_out_root:
  assumes "sane st"
    and st'_def: "st' = update_output (\<lambda>out. out\<lparr>root := r\<rparr>) st"
  shows "sane st'"
    and "place st' = place st"
    and "view st' = (view st)\<lparr>out_root := r\<rparr>"
proof -
  have files': "input (files st') = input (files st)"
    "output (files st') = (output (files st))\<lparr>root := r\<rparr>"
    "num_input (files st') = num_input (files st)" "input_movie_number st' = input_movie_number st"
    "largest_dts st' = largest_dts st" "num_consecutive_sample_skip st' = num_consecutive_sample_skip st"
    "num_active_input_tracks st' = num_active_input_tracks st" "transfers st' = transfers st"
    by (simp_all add: st'_def update_output_def)
  show place: "place st' = place st"
    by (simp add: place_def files')
  show "sane st'"
    using assms(1) unfolding sane_def Let_def
    by (simp add: place files')
  show "view st' = (view st)\<lparr>out_root := r\<rparr>"
    by (simp add: view_def files' place)
qed

lemma length_le_offset:
  "\<forall>m \<in> set ms. 0 < length (track m) \<Longrightarrow> length ms \<le> offset ms (length ms)"
proof (induction ms)
  case Nil
  then show ?case by simp
next
  case (Cons m ms)
  then have "1 \<le> length (track m)" "length ms \<le> offset ms (length ms)"
    by (simp_all add: Suc_le_eq)
  then show ?case by simp
qed

lemma sane_bounds:
  assumes "sane st"
  shows "length (input (files st)) + 1 < 2 ^ 32"
    and "current_track_number (input (files st) ! (input_movie_number st - 1)) + 1 < 2 ^ 32"
    and "place st + 2 < 2 ^ 32"
proof -
  let ?ms = "input (files st)" and ?n = "input_movie_number st"
  let ?N = "offset ?ms (length ?ms)"
  note cur = sane_current [OF assms] and out = sane_output [OF assms]
  have "\<forall>m \<in> set ?ms. 0 < length (track m)" using assms by (simp add: sane_def Let_def)
  then have "length ?ms \<le> ?N" by (rule length_le_offset)
  then show "length ?ms + 1 < 2 ^ 32" using out(4) by simp
  have "offset ?ms (?n - 1) + length (track (?ms ! (?n - 1))) = offset ?ms (Suc (?n - 1))"
    using cur(1) by (rule offset_Suc [symmetric])
  also have "\<dots> \<le> ?N" using cur by (intro offset_le) simp
  finally have "length (track (?ms ! (?n - 1))) \<le> ?N" by simp
  then show "current_track_number (?ms ! (?n - 1)) + 1 < 2 ^ 32" using cur(5) out(4) by simp
  show "place st + 2 < 2 ^ 32" using place_less [OF assms] out(4) by simp
qed

lemma uint32_inc_small: "n + 1 < 2 ^ 32 \<Longrightarrow> uint32_inc n = n + 1"
  by (simp add: uint32_inc_def)

lemma move_fields:
  assumes "sane st"
  shows "input (files (move_to_next_track st)) =
      (input (files st))[input_movie_number st - 1 :=
        (input (files st) ! (input_movie_number st - 1))\<lparr>current_track_number :=
          (if current_track_number (input (files st) ! (input_movie_number st - 1))
                < length (track (input (files st) ! (input_movie_number st - 1)))
           then current_track_number (input (files st) ! (input_movie_number st - 1)) + 1 else 1)\<rparr>]"
    and "input_movie_number (move_to_next_track st) =
      (if current_track_number (input (files st) ! (input_movie_number st - 1))
            < length (track (input (files st) ! (input_movie_number st - 1)))
       then input_movie_number st
       else if input_movie_number st < length (input (files st)) then input_movie_number st + 1
       else 1)"
    and "output (files (move_to_next_track st)) =
      (output (files st))\<lparr>current_track_number :=
         (if Suc (place st) < length (track (output (files st))) then place st + 2 else 1)\<rparr>"
    and "num_input (files (move_to_next_track st)) = num_input (files st)"
    and "largest_dts (move_to_next_track st) = largest_dts st"
    and "num_consecutive_sample_skip (move_to_next_track st) = num_consecutive_sample_skip st"
    and "num_active_input_tracks (move_to_next_track st) = num_active_input_tracks st"
    and "transfers (move_to_next_track st) = transfers st"
proof -
  define ms where "ms = input (files st)"
  define n where "n = input_movie_number st"
  define cur where "cur = ms ! (n - 1)"
  define c where "c = current_track_number cur"
  define out where "out = output (files st)"
  note defs = ms_def n_def cur_def c_def out_def
  have cur: "n - 1 < length ms" "1 \<le> n" "n \<le> length ms" "1 \<le> c" "c \<le> length (track cur)"
    "num_tracks cur = length (track cur)" "num_input (files st) = length ms"
    using sane_current [OF assms] by (simp_all add: defs)
  have outf: "num_tracks out = length (track out)" "current_track_number out = Suc (place st)"
    using sane_output [OF assms] by (simp_all add: defs)
  have inc: "uint32_inc c = c + 1" "uint32_inc n = n + 1" "uint32_inc (Suc (place st)) = place st + 2"
    using sane_bounds [OF assms] cur by (simp_all add: uint32_inc_small defs)
  define st1 where "st1 = update_movie (\<lambda>movie. movie\<lparr>current_track_number :=
                   uint32_inc (current_track_number movie)\<rparr>) st"
  define st2 where "st2 = update_output (\<lambda>out. out\<lparr>current_track_number :=
                   uint32_inc (current_track_number out)\<rparr>) st1"
  define st3 where "st3 = (if current_track_number (input (files st2) ! (input_movie_number st2 - 1))
                      > num_tracks (input (files st2) ! (input_movie_number st2 - 1))
                 then (update_movie (\<lambda>movie. movie\<lparr>current_track_number := 1\<rparr>) st2)
                        \<lparr>input_movie_number := uint32_inc (input_movie_number st2)\<rparr>
                 else st2)"
  define st4 where "st4 = (if input_movie_number st3 > num_input (files st3)
                 then st3\<lparr>input_movie_number := 1\<rparr> else st3)"
  have move: "move_to_next_track st =
      (if current_track_number (output (files st4)) > num_tracks (output (files st4))
         then update_output (\<lambda>out. out\<lparr>current_track_number := 1\<rparr>) st4
         else st4)"
    by (simp add: move_to_next_track_def Let_def st1_def st2_def st3_def st4_def)
  have s1: "input (files st1) = ms[n - 1 := cur\<lparr>current_track_number := c + 1\<rparr>]"
    "output (files st1) = out" "input_movie_number st1 = n" "num_input (files st1) = num_input (files st)"
    "largest_dts st1 = largest_dts st" "num_consecutive_sample_skip st1 = num_consecutive_sample_skip st"
    "num_active_input_tracks st1 = num_active_input_tracks st" "transfers st1 = transfers st"
    by (simp_all add: st1_def update_movie_def defs [symmetric] inc del: One_nat_def)
  have s2: "input (files st2) = ms[n - 1 := cur\<lparr>current_track_number := c + 1\<rparr>]"
    "output (files st2) = out\<lparr>current_track_number := place st + 2\<rparr>"
    "input_movie_number st2 = n" "num_input (files st2) = num_input (files st)"
    "largest_dts st2 = largest_dts st" "num_consecutive_sample_skip st2 = num_consecutive_sample_skip st"
    "num_active_input_tracks st2 = num_active_input_tracks st" "transfers st2 = transfers st"
    using outf(2) by (simp_all add: st2_def update_output_def s1 inc del: One_nat_def)
  have s3: "input (files st3) = ms[n - 1 := cur\<lparr>current_track_number :=
        (if c < length (track cur) then c + 1 else 1)\<rparr>]"
    "output (files st3) = out\<lparr>current_track_number := place st + 2\<rparr>"
    "input_movie_number st3 = (if c < length (track cur) then n else n + 1)"
    "num_input (files st3) = num_input (files st)"
    "largest_dts st3 = largest_dts st" "num_consecutive_sample_skip st3 = num_consecutive_sample_skip st"
    "num_active_input_tracks st3 = num_active_input_tracks st" "transfers st3 = transfers st"
    using cur by (auto simp: st3_def s2 update_movie_def inc simp del: One_nat_def)
  have s4: "input (files st4) = ms[n - 1 := cur\<lparr>current_track_number :=
        (if c < length (track cur) then c + 1 else 1)\<rparr>]"
    "output (files st4) = out\<lparr>current_track_number := place st + 2\<rparr>"
    "input_movie_number st4 = (if c < length (track cur) then n else if n < length ms then n + 1 else 1)"
    "num_input (files st4) = num_input (files st)"
    "largest_dts st4 = largest_dts st" "num_consecutive_sample_skip st4 = num_consecutive_sample_skip st"
    "num_active_input_tracks st4 = num_active_input_tracks st" "transfers st4 = transfers st"
    using cur by (auto simp: st4_def s3 simp del: One_nat_def)
  show "input (files (move_to_next_track st)) =
      (input (files st))[input_movie_number st - 1 :=
        (input (files st) ! (input_movie_number st - 1))\<lparr>current_track_number :=
          (if current_track_number (input (files st) ! (input_movie_number st - 1))
                < length (track (input (files st) ! (input_movie_number st - 1)))
           then current_track_number (input (files st) ! (input_movie_number st - 1)) + 1 else 1)\<rparr>]"
    unfolding move defs [symmetric] by (simp add: s4 update_output_def)
  show "input_movie_number (move_to_next_track st) =
      (if current_track_number (input (files st) ! (input_movie_number st - 1))
            < length (track (input (files st) ! (input_movie_number st - 1)))
       then input_movie_number st
       else if input_movie_number st < length (input (files st)) then input_movie_number st + 1
       else 1)"
    unfolding move defs [symmetric] by (simp add: s4 update_output_def)
  show "output (files (move_to_next_track st)) =
      (output (files st))\<lparr>current_track_number :=
         (if Suc (place st) < length (track (output (files st))) then place st + 2 else 1)\<rparr>"
    unfolding move defs [symmetric] using outf(1) by (auto simp: s4 update_output_def)
  show "num_input (files (move_to_next_track st)) = num_input (files st)"
    "largest_dts (move_to_next_track st) = largest_dts st"
    "num_consecutive_sample_skip (move_to_next_track st) = num_consecutive_sample_skip st"
    "num_active_input_tracks (move_to_next_track st) = num_active_input_tracks st"
    "transfers (move_to_next_track st) = transfers st"
    unfolding move by (simp_all add: s4 update_output_def)
qed

lemma move_view:
  assumes "sane st"
  shows "sane (move_to_next_track st)"
    and "view (move_to_next_track st) = advance (view st)"
proof -
  define ms where "ms = input (files st)"
  define n where "n = input_movie_number st"
  define cur where "cur = ms ! (n - 1)"
  define c where "c = current_track_number cur"
  define out where "out = output (files st)"
  define N where "N = offset ms (length ms)"
  define st' where "st' = move_to_next_track st"
  define c' where "c' = (if c < length (track cur) then c + 1 else 1)"
  define n' where "n' = (if c < length (track cur) then n else if n < length ms then n + 1 else 1)"
  define ms' where "ms' = ms[n - 1 := cur\<lparr>current_track_number := c'\<rparr>]"
  note defs = ms_def n_def cur_def c_def out_def
  have cur: "n - 1 < length ms" "1 \<le> n" "n \<le> length ms" "1 \<le> c" "c \<le> length (track cur)"
    "num_tracks cur = length (track cur)" "num_input (files st) = length ms"
    using sane_current [OF assms] by (simp_all add: defs)
  have outf: "num_tracks out = length (track out)" "current_track_number out = Suc (place st)"
    "length (track out) = N" "N + 1 < 2 ^ 32"
    using sane_output [OF assms] by (simp_all add: defs N_def)
  have all: "\<forall>m \<in> set ms. num_tracks m = length (track m) \<and> 0 < length (track m)"
    and others: "\<forall>i < length ms. i \<noteq> n - 1 \<longrightarrow> current_track_number (ms ! i) = 1"
    using assms by (simp_all add: sane_def Let_def defs)
  have p: "place st = offset ms (n - 1) + (c - 1)"
    by (simp add: place_def defs)
  have pN: "place st < N"
    using place_less [OF assms] by (simp add: N_def defs)
  have f: "input (files st') = ms'" "input_movie_number st' = n'"
    "output (files st') = out\<lparr>current_track_number := (if Suc (place st) < N then place st + 2 else 1)\<rparr>"
    "num_input (files st') = length ms"
    "largest_dts st' = largest_dts st" "num_consecutive_sample_skip st' = num_consecutive_sample_skip st"
    "num_active_input_tracks st' = num_active_input_tracks st" "transfers st' = transfers st"
    using move_fields [OF assms] cur(7) outf(3)
    by (simp_all add: st'_def ms'_def c'_def n'_def defs)
  have len': "length ms' = length ms" by (simp add: ms'_def)
  have off': "offset ms' k = offset ms k" for k
    unfolding ms'_def using cur(1) by (intro offset_update) (simp_all add: cur_def)
  have slots': "slots_of 1 ms' = slots_of 1 ms"
    unfolding ms'_def using cur(1) by (intro slots_of_same) (simp_all add: cur_def)
  have nth': "ms' ! i = (if i = n - 1 then cur\<lparr>current_track_number := c'\<rparr> else ms ! i)"
    if "i < length ms" for i
    using that by (simp add: ms'_def nth_list_update del: One_nat_def)
  have step: "offset ms (n - 1) + length (track cur) = offset ms n"
    using offset_Suc [OF cur(1)] cur(2) by (simp add: cur_def)
  have place': "place st' = Suc (place st) mod N"
  proof (cases "c < length (track cur)")
    case True
    then have "n' = n" "c' = c + 1" by (simp_all add: n'_def c'_def)
    then have "place st' = offset ms (n - 1) + c"
      using cur by (simp add: place_def f off' nth' del: One_nat_def)
    moreover have "offset ms (n - 1) + c < N"
      unfolding N_def using cur(1) True by (intro offset_inside) (simp_all add: cur_def)
    ultimately show ?thesis using cur(4) by (simp add: p)
  next
    case False
    with cur(5) have c: "c = length (track cur)" by simp
    have Sp: "Suc (place st) = offset ms n" using step cur(4) by (simp add: p c)
    show ?thesis
    proof (cases "n < length ms")
      case True
      with False have n': "n' = n + 1" by (simp add: n'_def)
      have nn: "n \<noteq> n - 1" using cur(2) by simp
      with True others have one: "current_track_number (ms ! n) = 1" by blast
      have "place st' = offset ms n"
        using True cur(2) nn by (simp add: place_def f n' off' nth' one del: One_nat_def)
      moreover have "offset ms n + 0 < N"
        unfolding N_def using True all by (intro offset_inside) simp_all
      ultimately show ?thesis by (simp add: Sp)
    next
      case last: False
      with False cur(3) have n': "n' = 1" and n: "n = length ms" by (simp_all add: n'_def)
      have c': "c' = 1" using False by (simp add: c'_def)
      have "current_track_number (ms' ! 0) = 1"
      proof (cases "n - 1 = 0")
        case True
        then show ?thesis using cur(1) by (simp add: nth' c' del: One_nat_def)
      next
        case False
        then have z: "0 < length ms" "0 \<noteq> n - 1" using cur(1) by linarith+
        with others have "current_track_number (ms ! 0) = 1" by blast
        with z show ?thesis by (simp add: nth' del: One_nat_def)
      qed
      then have "place st' = 0" by (simp add: place_def f n')
      moreover have "Suc (place st) = N" by (simp add: Sp n N_def)
      ultimately show ?thesis by simp
    qed
  qed
  have "view st' = advance (view st)"
    by (simp add: view_def advance_def f place' slots' length_slots_of N_def
          ms_def [symmetric] out_def [symmetric] del: One_nat_def)
  then show "view (move_to_next_track st) = advance (view st)"
    by (simp add: st'_def)
  have mem: "m = cur\<lparr>current_track_number := c'\<rparr> \<or> m \<in> set ms" if "m \<in> set ms'" for m
    using that set_update_subset_insert [of ms "n - 1" "cur\<lparr>current_track_number := c'\<rparr>"]
    by (auto simp: ms'_def)
  have curmem: "cur \<in> set ms" using cur(1) by (simp add: cur_def)
  have n'b: "1 \<le> n'" "n' \<le> length ms" using cur by (auto simp: n'_def)
  have ctn': "1 \<le> current_track_number (ms' ! (n' - 1))"
    "current_track_number (ms' ! (n' - 1)) \<le> length (track (ms' ! (n' - 1)))"
    "\<forall>i < length ms. i \<noteq> n' - 1 \<longrightarrow> current_track_number (ms' ! i) = 1"
  proof -
    show "1 \<le> current_track_number (ms' ! (n' - 1))"
      using cur n'b others by (auto simp: nth' n'_def c'_def simp del: One_nat_def)
    have "track (ms' ! (n' - 1)) \<noteq> []"
      using n'b all mem [of "ms' ! (n' - 1)"] curmem len' by (auto simp del: One_nat_def)
    then have pos: "1 \<le> length (track (ms' ! (n' - 1)))"
      by (cases "track (ms' ! (n' - 1))") simp_all
    show "current_track_number (ms' ! (n' - 1)) \<le> length (track (ms' ! (n' - 1)))"
    proof (cases "c < length (track cur)")
      case True
      then show ?thesis using cur by (simp add: nth' n'_def c'_def del: One_nat_def)
    next
      case False
      then have "current_track_number (ms' ! (n' - 1)) = 1"
        using cur n'b others by (auto simp: nth' n'_def c'_def simp del: One_nat_def)
      with pos show ?thesis by simp
    qed
    show "\<forall>i < length ms. i \<noteq> n' - 1 \<longrightarrow> current_track_number (ms' ! i) = 1"
      using cur others by (auto simp: nth' n'_def c'_def simp del: One_nat_def)
  qed
  have outc: "(if Suc (place st) < N then place st + 2 else 1) = Suc (place st')"
  proof (cases "Suc (place st) < N")
    case True
    then show ?thesis by (simp add: place')
  next
    case False
    with pN have "Suc (place st) = N" by simp
    with False show ?thesis by (simp add: place')
  qed
  have ne: "ms' \<noteq> []" using len' cur(1) by (cases ms') auto
  show "sane (move_to_next_track st)"
    unfolding sane_def Let_def st'_def [symmetric] f
    using cur all outf n'b ctn' curmem ne
    by (auto simp: len' off' N_def [symmetric] outc dest!: mem)
qed

lemma view_scalar:
  "view (st\<lparr>largest_dts := w\<rparr>) = (view st)\<lparr>watermark := w\<rparr>"
  "view (st\<lparr>num_consecutive_sample_skip := k\<rparr>) = (view st)\<lparr>skips := k\<rparr>"
  "view (st\<lparr>num_active_input_tracks := a\<rparr>) = (view st)\<lparr>active := a\<rparr>"
  "view (st\<lparr>transfers := h\<rparr>) = (view st)\<lparr>history := h\<rparr>"
  by (simp_all add: view_def place_def)

lemma sane_scalar:
  "sane (st\<lparr>largest_dts := w\<rparr>) = sane st"
  "sane (st\<lparr>num_consecutive_sample_skip := k\<rparr>) = sane st"
  "sane (st\<lparr>num_active_input_tracks := a\<rparr>) = sane st"
  "sane (st\<lparr>transfers := h\<rparr>) = sane st"
  by (simp_all add: sane_def place_def)

lemma mux_step_simulates:
  assumes "sane st"
  shows "simulates (mux_step lib st) (sched_step lib (view st))"
proof -
  define movie where "movie = input (files st) ! (input_movie_number st - 1)"
  define in_track where "in_track = track movie ! (current_track_number movie - 1)"
  define out_track where "out_track = track (output (files st)) ! place st"
  define v where "v = view st"
  define x where "x = slots v ! position v"
  have posv: "position (view st) = place st" by (simp add: view_def)
  have pos: "position v = place st" by (simp add: v_def view_def)
  have x: "x = \<lparr>slot_movie = input_movie_number st, slot_track = current_track_number movie,
      slot_root = root movie, slot_in = in_track\<rparr>"
    using slot_at_place [OF assms] by (simp add: x_def posv v_def movie_def in_track_def)
  have el: "element (input (files st)) (input_movie_number st) = Some movie"
    "element (track movie) (current_track_number movie) = Some in_track"
    "element (track (output (files st))) (current_track_number (output (files st))) = Some out_track"
    using element_movie [OF assms] element_track [OF assms] element_out [OF assms]
    by (simp_all add: movie_def in_track_def out_track_def)
  have vf: "out_tracks v ! position v = out_track" "out_root v = root (output (files st))"
    "watermark v = largest_dts st" "skips v = num_consecutive_sample_skip st"
    "active v = num_active_input_tracks st" "history v = transfers st"
    by (simp_all add: v_def view_def out_track_def)
  have octn: "current_track_number (output (files st)) = Suc (place st)"
    using sane_output [OF assms] by simp
  show ?thesis
  proof (cases "reach_end_of_media_timeline in_track")
    case True
    then have "mux_step lib st = Continue (move_to_next_track st)"
      by (simp add: mux_step_def el)
    moreover have "sched_step lib v = Continue (advance v)"
      using True by (simp add: sched_step_def Let_def x_def [symmetric] x)
    ultimately show ?thesis using assms by (simp add: v_def move_view)
  next
    case live: False
    show ?thesis
    proof (cases "root movie")
      case None
      then have "mux_step lib st = Abort Null_pointer"
        using live by (simp add: mux_step_def el)
      moreover have "sched_step lib v = Abort Null_pointer"
        using live None by (simp add: sched_step_def Let_def x_def [symmetric] x)
      ultimately show ?thesis by (simp add: v_def)
    next
      case (Some r)
      show ?thesis
      proof (cases "lsmash_get_dts_from_media_timeline lib r (track_ID in_track)
                      (current_sample_number in_track)")
        case no_dts: None
        show ?thesis
        proof (cases "lsmash_check_sample_existence_in_media_timeline lib r (track_ID in_track)
                        (current_sample_number in_track)")
          case True
          then have "mux_step lib st = Abort Failed_to_get_the_DTS"
            using live Some no_dts by (simp add: mux_step_def el)
          moreover have "sched_step lib v = Abort Failed_to_get_the_DTS"
            using live Some no_dts True by (simp add: sched_step_def Let_def x_def [symmetric] x)
          ultimately show ?thesis by (simp add: v_def)
        next
          case False
          define st1 where "st1 = update_movie (update_current_track
                          (\<lambda>t. t\<lparr>reach_end_of_media_timeline := True\<rparr>)) st"
          define st2 where "st2 = st1\<lparr>num_active_input_tracks := uint32_dec (num_active_input_tracks st1)\<rparr>"
          note u = update_in_track [OF assms st1_def]
          have a1: "num_active_input_tracks st1 = num_active_input_tracks st"
            by (simp add: st1_def update_movie_def)
          have s2: "sane st2" using u(1) by (simp add: st2_def sane_scalar)
          have v2: "view st2 = v\<lparr>slots := (slots v)[position v := x\<lparr>slot_in := in_track\<lparr>reach_end_of_media_timeline := True\<rparr>\<rparr>],
              active := uint32_dec (active v)\<rparr>"
            by (simp add: st2_def view_scalar u(3) a1 v_def [symmetric] pos [symmetric] x_def [symmetric] vf)
               (simp add: x)
          have m: "mux_step lib st =
            (if num_active_input_tracks st2 = 0 then Break st2 else Continue (move_to_next_track st2))"
            using live Some no_dts False by (simp add: mux_step_def el Let_def st1_def st2_def)
          have a2: "num_active_input_tracks st2 = uint32_dec (active v)"
            by (simp add: st2_def a1 vf)
          have w: "sched_step lib v =
            (if uint32_dec (active v) = 0
             then Break (v\<lparr>slots := (slots v)[position v := x\<lparr>slot_in := in_track\<lparr>reach_end_of_media_timeline := True\<rparr>\<rparr>],
                        active := 0\<rparr>)
             else Continue (advance
                  (v\<lparr>slots := (slots v)[position v := x\<lparr>slot_in := in_track\<lparr>reach_end_of_media_timeline := True\<rparr>\<rparr>],
                     active := uint32_dec (active v)\<rparr>)))"
            using live Some no_dts False by (simp add: sched_step_def Let_def x_def [symmetric] x)
          show ?thesis
            unfolding m w v_def [symmetric] using s2 v2 by (auto simp: a2 move_view)
        qed
      next
        case dts: (Some d)
        show ?thesis
        proof (cases "seconds lib d (timescale (media_param in_track)) \<le> largest_dts st
             \<or> num_consecutive_sample_skip st = num_active_input_tracks st")
          case False
          define st1 where "st1 = st\<lparr>num_consecutive_sample_skip :=
                    uint32_inc (num_consecutive_sample_skip st)\<rparr>"
          have "mux_step lib st = Continue (move_to_next_track st1)"
            using live Some dts False by (simp add: mux_step_def el Let_def st1_def)
          moreover have "sched_step lib v = Continue (advance (v\<lparr>skips := uint32_inc (skips v)\<rparr>))"
            using live Some dts False by (simp add: sched_step_def Let_def x_def [symmetric] x vf)
          moreover have "sane st1" "view st1 = v\<lparr>skips := uint32_inc (skips v)\<rparr>"
            using assms by (simp_all add: st1_def sane_scalar view_scalar v_def vf [unfolded v_def])
          ultimately show ?thesis unfolding v_def [symmetric] by (simp add: move_view)
        next
          case go: True
          show ?thesis
          proof (cases "lsmash_get_sample_from_media_timeline lib r (track_ID in_track)
                    (current_sample_number in_track)")
            case None
            then have "mux_step lib st = Abort Failed_to_get_sample"
              using live Some dts go by (simp add: mux_step_def el Let_def)
            moreover have "sched_step lib v = Abort Failed_to_get_sample"
              using live Some dts go None by (simp add: sched_step_def Let_def x_def [symmetric] x vf)
            ultimately show ?thesis by (simp add: v_def)
          next
            case smp: (Some sample)
            show ?thesis
            proof (cases "root (output (files st))")
              case None
              then have "mux_step lib st = Abort Null_pointer"
                using live Some dts go smp by (simp add: mux_step_def el Let_def)
              moreover have "sched_step lib v = Abort Null_pointer"
                using live Some dts go smp None by (simp add: sched_step_def Let_def x_def [symmetric] x vf)
              ultimately show ?thesis by (simp add: v_def)
            next
              case oroot: (Some ro)
              show ?thesis
              proof (cases "lsmash_append_sample lib ro (track_ID out_track) sample")
                case None
                then have "mux_step lib st = Abort Failed_to_append_a_sample"
                  using live Some dts go smp oroot by (simp add: mux_step_def el Let_def)
                moreover have "sched_step lib v = Abort Failed_to_append_a_sample"
                  using live Some dts go smp oroot None
                  by (simp add: sched_step_def Let_def x_def [symmetric] x vf)
                ultimately show ?thesis by (simp add: v_def)
              next
                case app: (Some ro')
                define st1 where "st1 = update_output (\<lambda>out. out\<lparr>root := Some ro'\<rparr>) st"
                define st2 where "st2 = st1\<lparr>largest_dts :=
                              LSMASH_MAX (largest_dts st1) (seconds lib d (timescale (media_param in_track)))\<rparr>"
                define st3 where "st3 = update_movie (update_current_track
                              (\<lambda>t. t\<lparr>current_sample_number :=
                                 uint32_inc (current_sample_number t)\<rparr>)) st2"
                define st4 where "st4 = update_output (update_current_track
                              (\<lambda>t. t\<lparr>current_sample_number :=
                                 uint32_inc (current_sample_number t)\<rparr>)) st3"
                define st5 where "st5 = st4\<lparr>num_consecutive_sample_skip := 0,
                                transfers := transfers st4 @
                                  [\<lparr>source = input_movie_number st,
                                    source_track = current_track_number movie,
                                    sample_number = current_sample_number in_track,
                                    sample_dts = d,
                                    target_track = current_track_number (output (files st))\<rparr>]\<rparr>"
                have m: "mux_step lib st = Continue (move_to_next_track st5)"
                  using live Some dts go smp oroot app
                  by (simp add: mux_step_def el Let_def st1_def st2_def st3_def st4_def st5_def)
                note u1 = update_out_root [OF assms st1_def]
                have l1: "largest_dts st1 = largest_dts st"
                  by (simp add: st1_def update_output_def)
                have s2: "sane st2" "place st2 = place st" using u1 by (simp_all add: st2_def sane_scalar place_def)
                have v2: "view st2 = v\<lparr>out_root := Some ro',
                   watermark := LSMASH_MAX (watermark v) (seconds lib d (timescale (media_param in_track)))\<rparr>"
                  by (simp add: st2_def view_scalar u1(3) l1 v_def vf [unfolded v_def])
                note u3 = update_in_track [OF s2(1) st3_def]
                note u4 = update_out_track [OF u3(1) st4_def]
                have t4: "transfers st4 = transfers st"
                  by (simp add: st4_def st3_def st2_def st1_def update_output_def update_movie_def)
                have s5: "sane st5" using u4(1) by (simp add: st5_def sane_scalar)
                have v5: "view st5 =
                    v\<lparr>slots := (slots v)[position v := x\<lparr>slot_in :=
                          in_track\<lparr>current_sample_number := uint32_inc (current_sample_number in_track)\<rparr>\<rparr>],
                       out_tracks := (out_tracks v)[position v := (out_tracks v ! position v)\<lparr>current_sample_number :=
                          uint32_inc (current_sample_number (out_tracks v ! position v))\<rparr>],
                       out_root := Some ro',
                       watermark := LSMASH_MAX (watermark v) (seconds lib d (timescale (media_param in_track))),
                       skips := 0,
                       history := history v @
                         [\<lparr>source = slot_movie x, source_track = slot_track x,
                           sample_number = current_sample_number in_track, sample_dts = d,
                           target_track = Suc (position v)\<rparr>]\<rparr>"
                  unfolding st5_def t4
                  by (simp add: view_scalar u4(3) u4(2) u3(3) u3(2) s2(2) v2 pos [symmetric] octn
                        x_def [symmetric] vf)
                     (simp add: x vf)
                have w: "sched_step lib v = Continue (advance
                    (v\<lparr>slots := (slots v)[position v := x\<lparr>slot_in :=
                          in_track\<lparr>current_sample_number := uint32_inc (current_sample_number in_track)\<rparr>\<rparr>],
                       out_tracks := (out_tracks v)[position v := (out_tracks v ! position v)\<lparr>current_sample_number :=
                          uint32_inc (current_sample_number (out_tracks v ! position v))\<rparr>],
                       out_root := Some ro',
                       watermark := LSMASH_MAX (watermark v) (seconds lib d (timescale (media_param in_track))),
                       skips := 0,
                       history := history v @
                         [\<lparr>source = slot_movie x, source_track = slot_track x,
                           sample_number = current_sample_number in_track, sample_dts = d,
                           target_track = Suc (position v)\<rparr>]\<rparr>))"
                  using live Some dts go smp oroot app
                  by (simp add: sched_step_def Let_def x_def [symmetric] x vf)
                show ?thesis
                  unfolding m w v_def [symmetric] using s5 v5 by (simp add: move_view)
              qed
            qed
          qed
        qed
      qed
    qed
  qed
qed

lemma simulates_cases:
  assumes "simulates a w"
  obtains (Continue) st where "a = Continue st" "w = Continue (view st)" "sane st"
  | (Break) st where "a = Break st" "w = Break (view st)" "sane st"
  | (Abort) e where "a = Abort e" "w = Abort e"
  using assms by (cases a) auto

lemma mux_turns_simulates:
  "sane st \<Longrightarrow> simulates (mux_turns lib n st) (sched_turns lib n (view st))"
proof (induction n arbitrary: st)
  case 0
  then show ?case by simp
next
  case (Suc n)
  from mux_step_simulates [OF Suc.prems, of lib] show ?case
  proof (cases rule: simulates_cases)
    case (Continue st')
    then show ?thesis using Suc.IH [of st'] by simp
  next
    case (Break st')
    then show ?thesis by simp
  next
    case (Abort e)
    then show ?thesis by simp
  qed
qed

lemma mux_loop_turns:
  "mux_turns lib n st = Break st' \<Longrightarrow> mux_loop lib st = Some (Inr st')"
  "mux_turns lib n st = Abort e \<Longrightarrow> mux_loop lib st = Some (Inl e)"
proof (induction n arbitrary: st)
  case 0
  { case 1 then show ?case by simp }
  { case 2 then show ?case by simp }
next
  case (Suc n)
  { case 1
    then show ?case using Suc.IH(1)
      by (cases "mux_step lib st") (simp_all add: mux_loop.simps [of lib st]) }
  { case 2
    then show ?case using Suc.IH(2)
      by (cases "mux_step lib st") (simp_all add: mux_loop.simps [of lib st]) }
qed

lemma mux_turns_loop:
  "mux_loop lib st = Some res \<Longrightarrow>
   \<exists>n. case res of Inr st' \<Rightarrow> mux_turns lib n st = Break st' | Inl e \<Rightarrow> mux_turns lib n st = Abort e"
proof (induction rule: mux_loop.raw_induct [rotated, consumes 1])
  case (1 loop lib st res)
  show ?case
  proof (cases "mux_step lib st")
    case (Continue st1)
    with 1(2) have "loop lib st1 = Some res" by simp
    from 1(1) [OF this] obtain n where
      "case res of Inr st' \<Rightarrow> mux_turns lib n st1 = Break st' | Inl e \<Rightarrow> mux_turns lib n st1 = Abort e"
      by blast
    with Continue show ?thesis by (intro exI [of _ "Suc n"]) (simp split: sum.splits)
  next
    case (Break st1)
    with 1(2) show ?thesis by (intro exI [of _ "Suc 0"]) auto
  next
    case (Abort e)
    with 1(2) show ?thesis by (intro exI [of _ "Suc 0"]) auto
  qed
qed

subsection \<open>Fairness and termination of the walk\<close>

lemma sched_step_cases [consumes 1, case_names idle finish take pass]:
  assumes "reached (sched_step lib v) = Some v'"
  obtains
    (idle) "ended v (position v)" "sched_step lib v = Continue v'" "v' = advance v"
  | (finish) "\<not> ended v (position v)" "\<not> has_dts lib (slots v ! position v)"
      "if active (finish_track v) = 0
       then sched_step lib v = Break v' \<and> v' = finish_track v
       else sched_step lib v = Continue v' \<and> v' = advance (finish_track v)"
  | (take) d ro where "\<not> ended v (position v)"
      "dts_of lib (slots v ! position v) (current_sample_number (slot_in (slots v ! position v))) = Some d"
      "seconds lib d (timescale (media_param (slot_in (slots v ! position v)))) \<le> watermark v
         \<or> skips v = active v"
      "sched_step lib v = Continue v'" "v' = advance (take_sample lib d ro v)"
  | (pass) d where "\<not> ended v (position v)"
      "dts_of lib (slots v ! position v) (current_sample_number (slot_in (slots v ! position v))) = Some d"
      "\<not> seconds lib d (timescale (media_param (slot_in (slots v ! position v)))) \<le> watermark v"
      "skips v \<noteq> active v"
      "sched_step lib v = Continue v'" "v' = advance (pass v)"
proof -
  define x where "x = slots v ! position v"
  define t where "t = slot_in x"
  note unf = sched_step_def Let_def x_def [symmetric] t_def [symmetric]
  show thesis
  proof (cases "reach_end_of_media_timeline t")
    case True
    with assms have "sched_step lib v = Continue v'" "v' = advance v"
      by (simp_all add: unf)
    with True show thesis by (intro idle) (simp_all add: ended_def x_def t_def)
  next
    case live: False
    then have nend: "\<not> ended v (position v)" by (simp add: ended_def x_def t_def)
    from assms live obtain r where r: "slot_root x = Some r"
      by (cases "slot_root x") (simp_all add: unf)
    show thesis
    proof (cases "lsmash_get_dts_from_media_timeline lib r (track_ID t) (current_sample_number t)")
      case None
      then have nd: "\<not> has_dts lib (slots v ! position v)"
        by (simp add: has_dts_def dts_of_def r x_def [symmetric] t_def [symmetric])
      have ft: "finish_track v = v\<lparr>slots := (slots v)[position v := x\<lparr>slot_in := t\<lparr>reach_end_of_media_timeline := True\<rparr>\<rparr>],
                     active := uint32_dec (active v)\<rparr>"
        by (simp add: finish_track_def on_track_def x_def t_def)
      have "if active (finish_track v) = 0
       then sched_step lib v = Break v' \<and> v' = finish_track v
       else sched_step lib v = Continue v' \<and> v' = advance (finish_track v)"
        using assms live r None unfolding ft
        by (auto simp: unf split: if_splits)
      with nend nd show thesis by (rule finish)
    next
      case (Some d)
      then have d: "dts_of lib (slots v ! position v) (current_sample_number (slot_in (slots v ! position v))) = Some d"
        by (simp add: dts_of_def r x_def [symmetric] t_def [symmetric])
      show thesis
      proof (cases "seconds lib d (timescale (media_param t)) \<le> watermark v \<or> skips v = active v")
        case False
        with assms live r Some have "sched_step lib v = Continue v'" "v' = advance (pass v)"
          by (simp_all add: unf pass_def)
        with nend d False show thesis by (intro pass [of d]) (simp_all add: x_def t_def)
      next
        case True
        with assms live r Some obtain sample ro ro' where
          "lsmash_get_sample_from_media_timeline lib r (track_ID t) (current_sample_number t) = Some sample"
          "out_root v = Some ro"
          "lsmash_append_sample lib ro (track_ID (out_tracks v ! position v)) sample = Some ro'"
          by (auto simp: unf split: option.splits)
        with assms live r Some True have "sched_step lib v = Continue v'" "v' = advance (take_sample lib d ro' v)"
          by (simp_all add: unf take_sample_def on_track_def x_def [symmetric] t_def [symmetric])
        with nend d True show thesis by (intro take [of d ro']) (simp_all add: x_def t_def)
      qed
    qed
  qed
qed

lemma next_position: "p < N \<Longrightarrow> Suc p mod N = (if Suc p = N then 0 else Suc p)"
  by auto

lemma behind_next_1: "p < N \<Longrightarrow> behind N (Suc p mod N) (Suc 0) = p"
  by (auto simp: behind_def next_position)

lemma behind_next_Suc: "p < N \<Longrightarrow> 1 \<le> d \<Longrightarrow> d < N \<Longrightarrow> behind N (Suc p mod N) (Suc d) = behind N p d"
  by (auto simp: behind_def next_position)

lemma behind_less: "p < N \<Longrightarrow> 1 \<le> d \<Longrightarrow> d \<le> N \<Longrightarrow> behind N p d < N"
  by (auto simp: behind_def)

lemma behind_neq: "p < N \<Longrightarrow> 1 \<le> d \<Longrightarrow> d < N \<Longrightarrow> behind N p d \<noteq> p"
  by (auto simp: behind_def)

lemma behind_all:
  assumes "p < N"
  shows "behind N p ` {1..N} = {0..<N}"
proof (intro equalityI subsetI)
  fix i assume "i \<in> behind N p ` {1..N}"
  then show "i \<in> {0..<N}" using assms by (auto simp: behind_less)
next
  fix i assume i: "i \<in> {0..<N}"
  show "i \<in> behind N p ` {1..N}"
  proof (cases "i < p")
    case True
    then have "behind N p (p - i) = i" "p - i \<in> {1..N}" using assms by (auto simp: behind_def)
    then show ?thesis by (metis imageI)
  next
    case False
    then have "behind N p (p + N - i) = i" "p + N - i \<in> {1..N}" using assms i by (auto simp: behind_def)
    then show ?thesis by (metis imageI)
  qed
qed

lemma advance_simps [simp]:
  "slots (advance v) = slots v" "out_tracks (advance v) = out_tracks v"
  "out_root (advance v) = out_root v" "watermark (advance v) = watermark v"
  "skips (advance v) = skips v" "active (advance v) = active v" "history (advance v) = history v"
  "position (advance v) = Suc (position v) mod length (slots v)"
  by (simp_all add: advance_def)

lemma live_advance [simp]: "live (advance v) = live v"
  by (simp add: live_def ended_def)

lemma finite_live [simp]: "finite (live v)"
  by (simp add: live_def)

lemma position_advance_less: "position v < length (slots v) \<Longrightarrow> position (advance v) < length (slots v)"
proof -
  assume "position v < length (slots v)"
  then have "0 < length (slots v)" by linarith
  then show ?thesis unfolding advance_simps by (rule mod_less_divisor)
qed

lemma recent_advance:
  assumes "position v < length (slots v)" "k < length (slots v)"
  shows "recent (advance v) (Suc k) = insert (position v) (recent v k)"
proof (intro equalityI subsetI)
  let ?N = "length (slots v)" and ?p = "position v"
  fix x assume "x \<in> recent (advance v) (Suc k)"
  then obtain d where d: "1 \<le> d" "d \<le> Suc k" "x = behind ?N (Suc ?p mod ?N) d"
    by (auto simp: recent_def)
  show "x \<in> insert ?p (recent v k)"
  proof (cases "d = 1")
    case True
    then show ?thesis using d assms by (simp add: behind_next_1)
  next
    case False
    with d obtain d' where d': "d = Suc d'" "1 \<le> d'" "d' \<le> k" by (cases d) auto
    then have "x = behind ?N ?p d'" using d assms by (simp add: behind_next_Suc)
    then show ?thesis using d' by (auto simp: recent_def)
  qed
next
  let ?N = "length (slots v)" and ?p = "position v"
  fix x assume "x \<in> insert ?p (recent v k)"
  then consider "x = ?p" | d where "1 \<le> d" "d \<le> k" "x = behind ?N ?p d"
    by (auto simp: recent_def)
  then show "x \<in> recent (advance v) (Suc k)"
  proof cases
    case 1
    then have "x = behind ?N (Suc ?p mod ?N) (Suc 0)" using assms by (simp add: behind_next_1)
    then show ?thesis unfolding recent_def advance_simps by (intro image_eqI [of _ _ "Suc 0"]) auto
  next
    case (2 d)
    then have "x = behind ?N (Suc ?p mod ?N) (Suc d)" using assms by (simp add: behind_next_Suc)
    then show ?thesis using 2 unfolding recent_def advance_simps
      by (intro image_eqI [of _ _ "Suc d"]) auto
  qed
qed

lemma recent_not_here:
  "position v < length (slots v) \<Longrightarrow> k < length (slots v) \<Longrightarrow> position v \<notin> recent v k"
  by (auto simp: recent_def dest: behind_neq [of "position v" "length (slots v)"])

lemma recent_all:
  "position v < length (slots v) \<Longrightarrow> recent v (length (slots v)) = {0..<length (slots v)}"
  using behind_all [of "position v" "length (slots v)"] by (simp add: recent_def)

lemma live_subset: "live v \<subseteq> {0..<length (slots v)}"
  by (auto simp: live_def)

lemma recent_0 [simp]: "recent v 0 = {}"
  by (simp add: recent_def)

lemma fair_advance_ended:
  assumes "fair lib v" "ended v (position v)"
  shows "fair lib (advance v)"
proof -
  let ?N = "length (slots v)" and ?p = "position v"
  from assms(1) obtain k where k: "k \<le> ?N" "skips v = card (recent v k \<inter> live v)"
    "\<forall>i \<in> recent v k \<inter> live v. has_dts lib (slots v ! i)"
    and p: "?p < ?N" and N: "?N < 2 ^ 32" and a: "active v = card (live v)"
    by (auto simp: fair_def)
  have notlive: "?p \<notin> live v" using assms(2) by (simp add: live_def)
  have p': "position (advance v) < ?N" using p by (rule position_advance_less)
  have "\<exists>k' \<le> ?N. recent (advance v) k' \<inter> live v = recent v k \<inter> live v"
  proof (cases "k < ?N")
    case True
    then have "recent (advance v) (Suc k) \<inter> live v = recent v k \<inter> live v"
      using notlive by (simp add: recent_advance [OF p True])
    with True show ?thesis by (intro exI [of _ "Suc k"]) simp
  next
    case False
    with k(1) have "k = ?N" by simp
    moreover have "recent (advance v) ?N = {0..<?N}"
      using recent_all [of "advance v"] p' by simp
    ultimately have "recent (advance v) ?N \<inter> live v = recent v k \<inter> live v"
      using recent_all [OF p] by simp
    then show ?thesis by (intro exI [of _ ?N]) simp
  qed
  then obtain k' where "k' \<le> ?N" "recent (advance v) k' \<inter> live v = recent v k \<inter> live v" by blast
  with k p' N a show ?thesis
    unfolding fair_def by (intro conjI exI [of _ k']) simp_all
qed

lemma on_track_simps [simp]:
  "position (on_track f v) = position v" "out_tracks (on_track f v) = out_tracks v"
  "out_root (on_track f v) = out_root v" "watermark (on_track f v) = watermark v"
  "skips (on_track f v) = skips v" "active (on_track f v) = active v"
  "history (on_track f v) = history v" "length (slots (on_track f v)) = length (slots v)"
  by (simp_all add: on_track_def)

lemma slots_on_track:
  "i < length (slots v) \<Longrightarrow>
   slots (on_track f v) ! i =
     (if i = position v then (slots v ! i)\<lparr>slot_in := f (slot_in (slots v ! i))\<rparr> else slots v ! i)"
  by (simp add: on_track_def nth_list_update)

lemma ended_on_track:
  "i < length (slots v) \<Longrightarrow>
   ended (on_track f v) i =
     (if i = position v then reach_end_of_media_timeline (f (slot_in (slots v ! i))) else ended v i)"
  by (simp add: ended_def slots_on_track)

lemma live_on_track_same:
  assumes "\<And>t. reach_end_of_media_timeline (f t) = reach_end_of_media_timeline t"
  shows "live (on_track f v) = live v"
proof -
  have "ended (on_track f v) i = ended v i" if "i < length (slots v)" for i
    using that by (simp add: ended_on_track assms) (simp add: ended_def)
  then show ?thesis by (auto simp: live_def)
qed

lemma live_on_track_end:
  "(\<And>t. reach_end_of_media_timeline (f t)) \<Longrightarrow> live (on_track f v) = live v - {position v}"
  by (auto simp: live_def ended_on_track split: if_splits)

lemma recent_cong:
  "position w = position v \<Longrightarrow> length (slots w) = length (slots v) \<Longrightarrow> recent w k = recent v k"
  by (simp add: recent_def)

lemma live_cong: "slots w = slots v \<Longrightarrow> live w = live v"
  by (simp add: live_def ended_def)

lemma uint32_dec_pos: "0 < n \<Longrightarrow> n < 2 ^ 32 \<Longrightarrow> uint32_dec n = n - 1"
proof -
  assume n: "0 < n" "n < 2 ^ 32"
  obtain m where m: "n = Suc m" using n(1) by (cases n) auto
  have "(Suc m + 4294967296 - 1) mod 4294967296 = (m + 4294967296) mod 4294967296" by simp
  also have "\<dots> = m mod 4294967296" by (rule mod_add_self2)
  also have "\<dots> = m" using n(2) m by simp
  finally show ?thesis by (simp add: uint32_dec_def m)
qed

lemma card_live_le: "card (live v) \<le> length (slots v)"
proof -
  have "card (live v) \<le> card {0..<length (slots v)}"
    by (intro card_mono live_subset) simp
  then show ?thesis by simp
qed

lemma fair_pass:
  assumes "fair lib v" "\<not> ended v (position v)" "has_dts lib (slots v ! position v)"
    "skips v \<noteq> active v"
  shows "fair lib (advance (pass v))" and "skips v < active v"
proof -
  let ?N = "length (slots v)" and ?p = "position v"
  from assms(1) obtain k where k: "k \<le> ?N" "skips v = card (recent v k \<inter> live v)"
    "\<forall>i \<in> recent v k \<inter> live v. has_dts lib (slots v ! i)"
    and p: "?p < ?N" and N: "?N < 2 ^ 32" and a: "active v = card (live v)"
    by (auto simp: fair_def)
  have plive: "?p \<in> live v" using assms(2) p by (simp add: live_def)
  have "card (recent v k \<inter> live v) \<le> card (live v)"
    by (intro card_mono) auto
  with k(2) a assms(4) show less: "skips v < active v" by simp
  have kN: "k < ?N"
  proof (rule ccontr)
    assume "\<not> k < ?N"
    with k(1) have "k = ?N" by simp
    then have "recent v k \<inter> live v = live v"
      using recent_all [OF p] live_subset [of v] by auto
    with k(2) a assms(4) show False by simp
  qed
  let ?w = "advance (pass v)"
  have w: "slots ?w = slots v" "position ?w = Suc ?p mod ?N" "active ?w = active v"
    "skips ?w = uint32_inc (skips v)" "live ?w = live v"
    by (simp_all add: pass_def live_def ended_def)
  have rec: "recent ?w (Suc k) = insert ?p (recent v k)"
    using recent_advance [of "pass v" k] p kN by (simp add: pass_def recent_def)
  have "skips v + 1 < 2 ^ 32" using less a card_live_le [of v] N by simp
  then have sk: "skips ?w = Suc (skips v)" unfolding w by (simp add: uint32_inc_def)
  have "recent ?w (Suc k) \<inter> live v = insert ?p (recent v k \<inter> live v)"
    using plive by (auto simp: rec)
  moreover have "?p \<notin> recent v k \<inter> live v" using recent_not_here [OF p kN] by simp
  ultimately have c: "card (recent ?w (Suc k) \<inter> live v) = Suc (card (recent v k \<inter> live v))"
    by simp
  have h: "\<forall>i \<in> recent ?w (Suc k) \<inter> live v. has_dts lib (slots v ! i)"
    using k(3) assms(3) by (auto simp: rec)
  have "position ?w < ?N" using position_advance_less [of "pass v"] p by (simp add: pass_def)
  with N a sk c h k(2) kN show "fair lib ?w"
    unfolding fair_def w by (intro conjI exI [of _ "Suc k"]) simp_all
qed

lemma fair_take:
  assumes "fair lib v"
  shows "fair lib (advance (take_sample lib d ro v))"
proof -
  let ?N = "length (slots v)" and ?p = "position v"
  let ?w = "advance (take_sample lib d ro v)"
  from assms have p: "?p < ?N" and N: "?N < 2 ^ 32" and a: "active v = card (live v)"
    by (auto simp: fair_def)
  have live': "live (take_sample lib d ro v) = live v"
    using live_on_track_same [of "\<lambda>t. t\<lparr>current_sample_number := uint32_inc (current_sample_number t)\<rparr>" v]
    by (simp add: take_sample_def live_def ended_def)
  have w: "length (slots ?w) = ?N" "active ?w = active v" "skips ?w = 0" "live ?w = live v"
    using live' by (simp_all add: take_sample_def)
  have "position ?w < ?N"
    using position_advance_less [of "take_sample lib d ro v"] p by (simp add: take_sample_def)
  with N a show ?thesis
    unfolding fair_def w by (intro conjI exI [of _ 0]) simp_all
qed

lemma fair_finish:
  assumes "fair lib v" "\<not> ended v (position v)" "\<not> has_dts lib (slots v ! position v)"
  shows "fair lib (finish_track v)"
    and "ended (finish_track v) (position (finish_track v))"
    and "live (finish_track v) = live v - {position v}"
    and "Suc (active (finish_track v)) = active v"
proof -
  let ?N = "length (slots v)" and ?p = "position v"
  let ?w = "finish_track v"
  from assms(1) obtain k where k: "k \<le> ?N" "skips v = card (recent v k \<inter> live v)"
    "\<forall>i \<in> recent v k \<inter> live v. has_dts lib (slots v ! i)"
    and p: "?p < ?N" and N: "?N < 2 ^ 32" and a: "active v = card (live v)"
    by (auto simp: fair_def)
  have plive: "?p \<in> live v" using assms(2) p by (simp add: live_def)
  then have "0 < card (live v)" using card_gt_0_iff [of "live v"] by auto
  moreover have "card (live v) < 2 ^ 32" using card_live_le [of v] N by simp
  ultimately have dec: "uint32_dec (active v) = card (live v) - 1" "0 < active v"
    by (simp_all add: a uint32_dec_pos)
  have w: "length (slots ?w) = ?N" "position ?w = ?p" "skips ?w = skips v"
    "active ?w = card (live v) - 1"
    by (simp_all add: finish_track_def dec)
  show live': "live ?w = live v - {?p}"
    using live_on_track_end [of "\<lambda>t. t\<lparr>reach_end_of_media_timeline := True\<rparr>" v]
    by (simp add: finish_track_def live_def ended_def)
  show "ended ?w (position ?w)"
    using p by (simp add: finish_track_def ended_def on_track_def)
  show "Suc (active ?w) = active v" using dec by (simp add: w a)
  have kN: "k < ?N"
  proof (rule ccontr)
    assume "\<not> k < ?N"
    with k(1) have "k = ?N" by simp
    then have "?p \<in> recent v k \<inter> live v"
      using recent_all [OF p] plive p by auto
    with k(3) assms(3) show False by blast
  qed
  have rec: "recent ?w k = recent v k" by (rule recent_cong) (simp_all add: w)
  have notin: "?p \<notin> recent v k" by (rule recent_not_here [OF p kN])
  then have inter: "recent ?w k \<inter> live ?w = recent v k \<inter> live v"
    by (auto simp: rec live')
  have slots_same: "slots ?w ! i = slots v ! i" if "i \<in> recent v k" for i
  proof -
    from that notin have "i \<noteq> ?p" by auto
    then show ?thesis by (simp add: finish_track_def on_track_def)
  qed
  have h: "\<forall>i \<in> recent ?w k \<inter> live ?w. has_dts lib (slots ?w ! i)"
    unfolding inter using k(3) slots_same by auto
  have "card (live ?w) = card (live v) - 1" using plive by (simp add: live')
  with p N k(1,2) h inter show "fair lib ?w"
    unfolding fair_def w by (intro conjI exI [of _ k]) simp_all
qed

lemma fair_step:
  assumes "fair lib v" "reached (sched_step lib v) = Some v'"
  shows "fair lib v'"
  using assms(2)
proof (cases rule: sched_step_cases)
  case idle
  with assms(1) show ?thesis by (simp add: fair_advance_ended)
next
  case finish
  note f = fair_finish [OF assms(1) finish(1,2)]
  show ?thesis
  proof (cases "active (finish_track v) = 0")
    case True
    with finish(3) f(1) show ?thesis by simp
  next
    case False
    with finish(3) have "v' = advance (finish_track v)" by simp
    with f(1,2) show ?thesis by (simp add: fair_advance_ended)
  qed
next
  case (take d ro)
  with assms(1) show ?thesis by (simp add: fair_take)
next
  case (pass d)
  then have "has_dts lib (slots v ! position v)" by (simp add: has_dts_def)
  with assms(1) pass show ?thesis by (simp add: fair_pass)
qed

lemma fair_skips_le: "fair lib v \<Longrightarrow> skips v \<le> active v"
proof -
  assume "fair lib v"
  then obtain k where "skips v = card (recent v k \<inter> live v)" "active v = card (live v)"
    by (auto simp: fair_def)
  moreover have "card (recent v k \<inter> live v) \<le> card (live v)" by (intro card_mono) auto
  ultimately show ?thesis by simp
qed

lemma sum_list_map_update_less:
  fixes f :: "'a \<Rightarrow> nat"
  assumes "p < length xs" "f y < f (xs ! p)"
  shows "sum_list (map f (xs[p := y])) < sum_list (map f xs)"
proof -
  have "sum_list (map f xs) = sum_list (map f (take p xs)) + f (xs ! p) + sum_list (map f (drop (Suc p) xs))"
    using assms(1) by (subst id_take_nth_drop [of p xs]) simp_all
  moreover have "sum_list (map f (xs[p := y])) = sum_list (map f (take p xs)) + f y + sum_list (map f (drop (Suc p) xs))"
    using assms(1) by (simp add: upd_conv_take_nth_drop)
  ultimately show ?thesis using assms(2) by simp
qed

lemma dts_of_same:
  "slot_root y = slot_root x \<Longrightarrow> track_ID (slot_in y) = track_ID (slot_in x) \<Longrightarrow> dts_of lib y = dts_of lib x"
  by (simp add: dts_of_def fun_eq_iff split: option.splits)

lemma remaining_next:
  assumes "dts_of lib x (current_sample_number (slot_in x)) \<noteq> None"
    and "dts_of lib x (current_sample_number (slot_in x) + b) = None"
    and "slot_root y = slot_root x" "track_ID (slot_in y) = track_ID (slot_in x)"
    and "current_sample_number (slot_in y) = Suc (current_sample_number (slot_in x))"
  shows "remaining lib x = Suc (remaining lib y)"
proof -
  let ?c = "current_sample_number (slot_in x)"
  let ?P = "\<lambda>b. dts_of lib x (?c + b) = None"
  have "(LEAST b. ?P b) = Suc (LEAST b. ?P (Suc b))"
    using assms(2) assms(1) by (intro Least_Suc [of ?P b]) simp_all
  then show ?thesis
    by (simp add: remaining_def dts_of_same [OF assms(3,4)] assms(5))
qed

lemma bounded_cursor:
  assumes "bounded lib v" "i < length (slots v)"
    "dts_of lib (slots v ! i) (current_sample_number (slot_in (slots v ! i))) \<noteq> None"
  shows "current_sample_number (slot_in (slots v ! i)) + 1 < 2 ^ 32"
    and "\<exists>b. Suc (current_sample_number (slot_in (slots v ! i))) + b < 2 ^ 32 \<and>
          dts_of lib (slots v ! i) (Suc (current_sample_number (slot_in (slots v ! i))) + b) = None"
proof -
  let ?c = "current_sample_number (slot_in (slots v ! i))"
  from assms(1,2) obtain b where b: "?c + b < 2 ^ 32" "dts_of lib (slots v ! i) (?c + b) = None"
    by (auto simp: bounded_def)
  with assms(3) have "b \<noteq> 0" by (intro notI) simp
  then obtain b' where b': "b = Suc b'" by (cases b) auto
  with b show "?c + 1 < 2 ^ 32" by simp
  from b b' show "\<exists>b. Suc ?c + b < 2 ^ 32 \<and> dts_of lib (slots v ! i) (Suc ?c + b) = None"
    by (intro exI [of _ b']) simp
qed

lemma gap_step:
  assumes "p < N" "a \<in> L" "a < N" "p \<notin> L"
  shows "(LEAST d. (Suc p mod N + d) mod N \<in> L) < (LEAST d. (p + d) mod N \<in> L)"
proof -
  let ?P = "\<lambda>d. (p + d) mod N \<in> L"
  have "(p + (a + N - p)) mod N = a" using assms(1,3) by simp
  then have ex: "?P (a + N - p)" using assms(2) by simp
  then have least: "?P (LEAST d. ?P d)" by (rule LeastI)
  have "(LEAST d. ?P d) \<noteq> 0"
  proof
    assume "(LEAST d. ?P d) = 0"
    with least assms(1,4) show False by simp
  qed
  then obtain g where g: "(LEAST d. ?P d) = Suc g" by (cases "LEAST d. ?P d") auto
  have "(Suc p mod N + g) mod N = (p + Suc g) mod N"
    by (simp add: mod_add_left_eq)
  with least g have "(Suc p mod N + g) mod N \<in> L" by simp
  then have "(LEAST d. (Suc p mod N + d) mod N \<in> L) \<le> g" by (rule Least_le)
  with g show ?thesis by simp
qed

lemma gap_bound:
  assumes "p < N" "p \<in> L"
  shows "(LEAST d. (Suc p mod N + d) mod N \<in> L) < N"
proof -
  have "(Suc p mod N + (N - 1)) mod N = (Suc p + (N - 1)) mod N"
    by (simp add: mod_add_left_eq)
  also have "\<dots> = (p + N) mod N" using assms(1) by simp
  also have "\<dots> = p" using assms(1) by simp
  finally have "(Suc p mod N + (N - 1)) mod N \<in> L" using assms(2) by simp
  then have "(LEAST d. (Suc p mod N + d) mod N \<in> L) \<le> N - 1" by (rule Least_le)
  with assms(1) show ?thesis by simp
qed

lemma gap_advance:
  "gap (advance v) = (LEAST d. (Suc (position v) mod length (slots v) + d) mod length (slots v) \<in> live v)"
  by (simp add: gap_def)

lemma live_nonempty: "fair lib v \<Longrightarrow> 0 < active v \<Longrightarrow> \<exists>a. a \<in> live v \<and> a < length (slots v)"
proof -
  assume "fair lib v" "0 < active v"
  then have "0 < card (live v)" by (simp add: fair_def)
  then have "live v \<noteq> {}" by auto
  then show ?thesis by (auto simp: live_def)
qed

lemma bounded_cong:
  assumes "bounded lib v" "length (slots w) = length (slots v)"
    and "\<And>i. i < length (slots v) \<Longrightarrow> slot_root (slots w ! i) = slot_root (slots v ! i) \<and>
          track_ID (slot_in (slots w ! i)) = track_ID (slot_in (slots v ! i)) \<and>
          current_sample_number (slot_in (slots w ! i)) = current_sample_number (slot_in (slots v ! i))"
  shows "bounded lib w"
  unfolding bounded_def
proof (intro allI impI)
  fix i assume "i < length (slots w)"
  then have i: "i < length (slots v)" using assms(2) by simp
  note s = assms(3) [OF i]
  from assms(1) i obtain b where "current_sample_number (slot_in (slots v ! i)) + b < 2 ^ 32"
    "dts_of lib (slots v ! i) (current_sample_number (slot_in (slots v ! i)) + b) = None"
    by (auto simp: bounded_def)
  then show "\<exists>b. current_sample_number (slot_in (slots w ! i)) + b < 2 ^ 32 \<and>
      dts_of lib (slots w ! i) (current_sample_number (slot_in (slots w ! i)) + b) = None"
    using s dts_of_same [of "slots w ! i" "slots v ! i" lib] by (intro exI [of _ b]) simp
qed

lemma progress_idle:
  assumes "fair lib v" "0 < active v" "ended v (position v)"
  shows "work lib (advance v) = work lib v" "patience (advance v) < patience v"
proof -
  from assms(1) have p: "position v < length (slots v)" by (simp add: fair_def)
  from live_nonempty [OF assms(1,2)] obtain a where a: "a \<in> live v" "a < length (slots v)" by blast
  have "position v \<notin> live v" using assms(3) by (simp add: live_def)
  from gap_step [OF p a this] have "gap (advance v) < gap v"
    by (simp add: gap_advance) (simp add: gap_def)
  then show "patience (advance v) < patience v" by (simp add: patience_def)
  show "work lib (advance v) = work lib v" by (simp add: work_def)
qed

lemma progress_pass:
  assumes "fair lib v" "\<not> ended v (position v)" "skips v < active v"
  shows "work lib (advance (pass v)) = work lib v" "patience (advance (pass v)) < patience v"
proof -
  let ?N = "length (slots v)"
  from assms(1) have p: "position v < ?N" and N: "?N < 2 ^ 32" and a: "active v = card (live v)"
    by (simp_all add: fair_def)
  have plive: "position v \<in> live v" using assms(2) p by (simp add: live_def)
  have w: "slots (pass v) = slots v" "position (pass v) = position v" "active (pass v) = active v"
    "live (pass v) = live v"
    by (simp_all add: pass_def live_def ended_def)
  have "skips v + 1 < 2 ^ 32" using assms(3) a card_live_le [of v] N by simp
  then have sk: "skips (pass v) = Suc (skips v)" by (simp add: pass_def uint32_inc_def)
  from gap_bound [OF p plive] have g: "gap (advance (pass v)) < ?N"
    by (simp add: gap_advance w)
  have "(active v - Suc (skips v)) * ?N + ?N = (active v - skips v) * ?N"
  proof -
    from assms(3) obtain m where "active v - skips v = Suc m" "active v - Suc (skips v) = m"
      by (cases "active v - skips v") auto
    then show ?thesis by simp
  qed
  with g show "patience (advance (pass v)) < patience v"
    by (simp add: patience_def w sk)
  show "work lib (advance (pass v)) = work lib v" by (simp add: work_def w)
qed

lemma work_on_track_less:
  assumes "position v < length (slots v)"
    and "weight lib ((slots v ! position v)\<lparr>slot_in := f (slot_in (slots v ! position v))\<rparr>)
           < weight lib (slots v ! position v)"
    and "slots w = slots (on_track f v)"
  shows "work lib w < work lib v"
  unfolding work_def assms(3) on_track_def
  using sum_list_map_update_less [OF assms(1), of "weight lib", OF assms(2)] by simp

lemma progress_finish:
  assumes "fair lib v" "bounded lib v" "\<not> ended v (position v)"
  shows "work lib (finish_track v) < work lib v" "bounded lib (finish_track v)"
proof -
  from assms(1) have p: "position v < length (slots v)" by (simp add: fair_def)
  have "weight lib ((slots v ! position v)\<lparr>slot_in :=
      (slot_in (slots v ! position v))\<lparr>reach_end_of_media_timeline := True\<rparr>\<rparr>)
        < weight lib (slots v ! position v)"
    using assms(3) by (simp add: weight_def ended_def)
  then show "work lib (finish_track v) < work lib v"
    by (intro work_on_track_less [OF p, of _ "\<lambda>t. t\<lparr>reach_end_of_media_timeline := True\<rparr>"])
       (simp_all add: finish_track_def)
  show "bounded lib (finish_track v)"
    by (rule bounded_cong [OF assms(2)])
       (simp_all add: finish_track_def slots_on_track)
qed

lemma progress_take:
  assumes "fair lib v" "bounded lib v" "\<not> ended v (position v)"
    "dts_of lib (slots v ! position v) (current_sample_number (slot_in (slots v ! position v))) = Some d"
  shows "work lib (take_sample lib d ro v) < work lib v" "bounded lib (take_sample lib d ro v)"
    and "current_sample_number (slot_in (slots (take_sample lib d ro v) ! position v))
          = Suc (current_sample_number (slot_in (slots v ! position v)))"
proof -
  let ?x = "slots v ! position v"
  let ?c = "current_sample_number (slot_in ?x)"
  let ?f = "\<lambda>t. t\<lparr>current_sample_number := uint32_inc (current_sample_number t)\<rparr>"
  let ?y = "?x\<lparr>slot_in := ?f (slot_in ?x)\<rparr>"
  from assms(1) have p: "position v < length (slots v)" by (simp add: fair_def)
  have some: "dts_of lib ?x ?c \<noteq> None" using assms(4) by simp
  note bc = bounded_cursor [OF assms(2) p some]
  have inc: "uint32_inc ?c = Suc ?c" using bc(1) by (simp add: uint32_inc_def)
  from bc(2) obtain b where b: "Suc ?c + b < 2 ^ 32" "dts_of lib ?x (Suc ?c + b) = None" by blast
  have sl: "slots (take_sample lib d ro v) = slots (on_track ?f v)"
    by (simp add: take_sample_def)
  have "remaining lib ?x = Suc (remaining lib ?y)"
    using some b(2) by (intro remaining_next [of lib ?x "Suc b"]) (simp_all add: inc)
  then have "weight lib ?y < weight lib ?x"
    using assms(3) by (simp add: weight_def ended_def)
  then show "work lib (take_sample lib d ro v) < work lib v"
    by (rule work_on_track_less [OF p _ sl])
  show "current_sample_number (slot_in (slots (take_sample lib d ro v) ! position v)) = Suc ?c"
    using p by (simp add: sl slots_on_track inc)
  show "bounded lib (take_sample lib d ro v)"
    unfolding bounded_def
  proof (intro allI impI)
    fix i assume "i < length (slots (take_sample lib d ro v))"
    then have i: "i < length (slots v)" by (simp add: sl)
    show "\<exists>b. current_sample_number (slot_in (slots (take_sample lib d ro v) ! i)) + b < 2 ^ 32 \<and>
        dts_of lib (slots (take_sample lib d ro v) ! i)
          (current_sample_number (slot_in (slots (take_sample lib d ro v) ! i)) + b) = None"
    proof (cases "i = position v")
      case True
      have "dts_of lib ?y = dts_of lib ?x" by (rule dts_of_same) simp_all
      with b True i show ?thesis
        by (intro exI [of _ b]) (simp add: sl slots_on_track inc)
    next
      case False
      with assms(2) i show ?thesis by (simp add: sl slots_on_track bounded_def)
    qed
  qed
qed

lemma wf_smaller: "wf (smaller lib)"
  unfolding smaller_def by (intro wf_inv_image wf_lex_prod wf_less_than)

lemma progress:
  assumes "fair lib v" "bounded lib v" "0 < active v" "sched_step lib v = Continue v'"
  shows "fair lib v'" "bounded lib v'" "0 < active v'" "(v', v) \<in> smaller lib"
proof -
  from assms(4) have r: "reached (sched_step lib v) = Some v'" by simp
  show "fair lib v'" by (rule fair_step [OF assms(1) r])
  from r have "bounded lib v' \<and> 0 < active v' \<and> (v', v) \<in> smaller lib"
  proof (cases rule: sched_step_cases)
    case idle
    with progress_idle [OF assms(1,3)] assms(2,3) show ?thesis
      by (simp add: smaller_def bounded_def)
  next
    case finish
    with assms(4) have v': "v' = advance (finish_track v)" "active (finish_track v) \<noteq> 0"
      by (auto split: if_splits)
    with progress_finish [OF assms(1,2) finish(1)] show ?thesis
      by (simp add: smaller_def bounded_def work_def)
  next
    case (take d ro)
    with progress_take [OF assms(1,2) take(1,2), of ro] assms(3) show ?thesis
      by (simp add: smaller_def bounded_def work_def take_sample_def)
  next
    case (pass d)
    from fair_skips_le [OF assms(1)] pass(4) have "skips v < active v" by simp
    from progress_pass [OF assms(1) pass(1) this] assms(2,3) pass(6) show ?thesis
      by (simp add: smaller_def bounded_def pass_def)
  qed
  then show "bounded lib v'" "0 < active v'" "(v', v) \<in> smaller lib" by simp_all
qed

lemma at_break:
  assumes "fair lib v" "sched_step lib v = Break v'"
  shows "fair lib v'" "active v' = 0" "live v' = {}"
proof -
  from assms(2) have r: "reached (sched_step lib v) = Some v'" by simp
  show f: "fair lib v'" by (rule fair_step [OF assms(1) r])
  from r show a: "active v' = 0"
    using assms(2) by (cases rule: sched_step_cases) (auto split: if_splits)
  with f have "card (live v') = 0" by (simp add: fair_def)
  then show "live v' = {}" by simp
qed

lemma mux_loop_terminates:
  assumes "sane st" "fair lib (view st)" "bounded lib (view st)" "0 < active (view st)"
  shows "\<exists>res. mux_loop lib st = Some res \<and>
     (\<forall>st'. res = Inr st' \<longrightarrow> sane st' \<and> fair lib (view st') \<and> active (view st') = 0 \<and> live (view st') = {})"
  using assms
proof (induction "view st" arbitrary: st rule: wf_induct_rule [OF wf_smaller [of lib]])
  case (1 st)
  note prems = "1.prems" and hyps = "1.hyps"
  from mux_step_simulates [OF prems(1), of lib] show ?case
  proof (cases rule: simulates_cases)
    case (Continue st1)
    note p = progress [OF prems(2,3,4) Continue(2)]
    from hyps [OF p(4) Continue(3) p(1,2,3)] obtain res where
      "mux_loop lib st1 = Some res"
      "\<forall>st'. res = Inr st' \<longrightarrow> sane st' \<and> fair lib (view st') \<and> active (view st') = 0 \<and> live (view st') = {}"
      by blast
    moreover have "mux_loop lib st = mux_loop lib st1"
      using Continue(1) by (simp add: mux_loop.simps [of lib st])
    ultimately show ?thesis by simp
  next
    case (Break st1)
    note b = at_break [OF prems(2) Break(2)]
    have "mux_loop lib st = Some (Inr st1)"
      using Break(1) by (simp add: mux_loop.simps [of lib st])
    with b Break(3) show ?thesis by simp
  next
    case (Abort e)
    then have "mux_loop lib st = Some (Inl e)"
      by (simp add: mux_loop.simps [of lib st])
    then show ?thesis by simp
  qed
qed

lemma slots_of_member:
  "x \<in> set (slots_of k ms) \<Longrightarrow> \<exists>m \<in> set ms. slot_root x = root m \<and> slot_in x \<in> set (track m)"
  by (induction ms arbitrary: k) (auto simp: movie_slots_def)

lemma slots_of_covers:
  assumes "m \<in> set ms" "t \<in> set (track m)"
  shows "\<exists>i < length (slots_of k ms). slot_in (slots_of k ms ! i) = t"
proof -
  from assms(1) obtain a where a: "a < length ms" "ms ! a = m" by (auto simp: in_set_conv_nth)
  from assms(2) obtain j where j: "j < length (track m)" "track m ! j = t" by (auto simp: in_set_conv_nth)
  have "offset ms a + j < offset ms (length ms)" using a j by (intro offset_inside) simp_all
  moreover have "slot_in (slots_of k ms ! (offset ms a + j)) = t"
    using a j by (simp add: slots_of_nth)
  ultimately show ?thesis by (auto simp: length_slots_of)
qed

lemma start_sane:
  assumes "wired io"
  shows "sane (start_muxing io :: ('r, 'm, 't::zero) muxer)"
proof -
  let ?st = "start_muxing io :: ('r, 'm, 't) muxer"
  have f: "input (files ?st) = input io" "input_movie_number ?st = 1"
    "output (files ?st) = (output io)\<lparr>current_track_number := 1\<rparr>"
    "num_input (files ?st) = num_input io"
    by (simp_all add: start_muxing_def)
  from assms have ne: "input io \<noteq> []" by (simp add: wired_def)
  then have "input io ! 0 \<in> set (input io)" by simp
  with assms have "current_track_number (input io ! 0) = 1" "0 < length (track (input io ! 0))"
    by (auto simp: wired_def)
  moreover have "place ?st = 0" using calculation by (simp add: place_def f)
  moreover have "\<forall>i < length (input io). current_track_number (input io ! i) = 1"
    using assms by (auto simp: wired_def)
  ultimately show ?thesis
    using assms ne unfolding sane_def Let_def f
    by (auto simp: wired_def Suc_le_eq)
qed

lemma start_view:
  "slots (view (start_muxing io)) = slots_of 1 (input io)"
  "out_tracks (view (start_muxing io)) = track (output io)"
  "skips (view (start_muxing io)) = 0"
  "active (view (start_muxing io)) = num_tracks (output io)"
  "history (view (start_muxing io)) = []"
  "watermark (view (start_muxing io)) = 0"
  by (simp_all add: view_def start_muxing_def)

lemma start_position:
  assumes "wired io"
  shows "position (view (start_muxing io)) = 0"
proof -
  from assms have "input io \<noteq> []" by (simp add: wired_def)
  then have "input io ! 0 \<in> set (input io)" by simp
  with assms have "current_track_number (input io ! 0) = 1" by (auto simp: wired_def)
  then show ?thesis by (simp add: view_def start_muxing_def place_def)
qed

lemma start_slot:
  assumes "wired io" "i < length (slots_of 1 (input io))"
  shows "current_sample_number (slot_in (slots_of 1 (input io) ! i)) = 1"
    and "\<not> reach_end_of_media_timeline (slot_in (slots_of 1 (input io) ! i))"
proof -
  from assms(2) have "slots_of 1 (input io) ! i \<in> set (slots_of 1 (input io))" by simp
  from slots_of_member [OF this] obtain m where
    "m \<in> set (input io)" "slot_in (slots_of 1 (input io) ! i) \<in> set (track m)" by blast
  with assms(1) show "current_sample_number (slot_in (slots_of 1 (input io) ! i)) = 1"
    "\<not> reach_end_of_media_timeline (slot_in (slots_of 1 (input io) ! i))"
    by (auto simp: wired_def)
qed

lemma start_fair:
  fixes lib :: "('r, 'm, 's, 't::zero) lsmash"
  assumes "wired io"
  shows "fair lib (view (start_muxing io))"
    and "0 < active (view (start_muxing io :: ('r, 'm, 't) muxer))"
proof -
  let ?v = "view (start_muxing io :: ('r, 'm, 't) muxer)"
  let ?N = "length (slots_of 1 (input io))"
  have N: "?N = offset (input io) (length (input io))" by (rule length_slots_of)
  from assms have "\<forall>m \<in> set (input io). 0 < length (track m)" "input io \<noteq> []"
    by (auto simp: wired_def)
  then have "length (input io) \<le> ?N" "0 < length (input io)"
    using length_le_offset [of "input io"] by (simp_all add: N del: One_nat_def)
  then have pos: "0 < ?N" by linarith
  have "live ?v = {0..<?N}"
    using start_slot(2) [OF assms] by (auto simp: live_def ended_def start_view)
  then have c: "card (live ?v) = ?N" by simp
  have a: "active ?v = ?N" using assms by (simp add: start_view length_slots_of wired_def)
  with pos show "0 < active ?v" by simp
  have "?N < 2 ^ 32" using assms by (simp add: length_slots_of wired_def)
  with pos a c show "fair lib ?v"
    unfolding fair_def
    by (intro conjI exI [of _ 0]) (simp_all add: start_position [OF assms] start_view)
qed

lemma start_bounded:
  assumes "wired io" "finite_media lib io"
  shows "bounded lib (view (start_muxing io))"
  unfolding bounded_def start_view
proof (intro allI impI)
  fix i assume i: "i < length (slots_of 1 (input io))"
  let ?x = "slots_of 1 (input io) ! i"
  from i have "?x \<in> set (slots_of 1 (input io))" by simp
  from slots_of_member [OF this] obtain m where
    m: "m \<in> set (input io)" "slot_root ?x = root m" "slot_in ?x \<in> set (track m)" by blast
  with assms(2) obtain r n where r: "root m = Some r" "1 \<le> n" "n < 2 ^ 32"
    "lsmash_get_dts_from_media_timeline lib r (track_ID (slot_in ?x)) n = None"
    unfolding finite_media_def by blast
  have c: "current_sample_number (slot_in ?x) = 1" by (rule start_slot(1) [OF assms(1) i])
  from r(2) obtain b where b: "n = 1 + b" by (metis le_Suc_ex plus_1_eq_Suc)
  have "1 + b < 2 ^ 32" "dts_of lib ?x (1 + b) = None"
    using r m(2) b by (simp_all add: dts_of_def del: One_nat_def)
  then show "\<exists>b. current_sample_number (slot_in ?x) + b < 2 ^ 32 \<and>
      dts_of lib ?x (current_sample_number (slot_in ?x) + b) = None"
    unfolding c by (intro exI [of _ b] conjI)
qed

subsection \<open>The loop ends\<close>

lemma ended_everywhere:
  assumes "live (view st) = {}" "m \<in> set (input (files st))" "t \<in> set (track m)"
  shows "reach_end_of_media_timeline t"
proof -
  from slots_of_covers [OF assms(2,3), of 1] obtain i where
    i: "i < length (slots_of 1 (input (files st)))" "slot_in (slots_of 1 (input (files st)) ! i) = t"
    by blast
  then have "i < length (slots (view st))" by (simp add: view_def)
  with assms(1) have "ended (view st) i" by (auto simp: live_def)
  with i(2) show ?thesis by (simp add: ended_def view_def)
qed

text \<open>
  Claim C2. Whatever the number of samples of each track (none included), their
  timestamps and their time scales, the loop ends: it gives up with a failure or leaves
  by its \<^verbatim>\<open>break\<close>, and when it leaves by the \<^verbatim>\<open>break\<close> the count of active tracks is 0
  and every input track is marked ended.
\<close>

theorem mux_loop_ends_with_no_active_track:
  fixes lib :: "('r, 'm, 's, 't::{linorder,zero}) lsmash"
  assumes "wired io" "finite_media lib io"
  shows "\<exists>res. mux_loop lib (start_muxing io) = Some res \<and>
     (\<forall>st'. res = Inr st' \<longrightarrow>
        num_active_input_tracks st' = 0 \<and>
        (\<forall>m \<in> set (input (files st')). \<forall>t \<in> set (track m). reach_end_of_media_timeline t))"
proof -
  let ?st = "start_muxing io :: ('r, 'm, 't) muxer"
  have "sane ?st" "fair lib (view ?st)" "bounded lib (view ?st)" "0 < active (view ?st)"
    using start_sane [OF assms(1)] start_fair [OF assms(1)] start_bounded [OF assms]
    by simp_all
  from mux_loop_terminates [OF this]
  obtain res where res: "mux_loop lib ?st = Some res"
    "\<forall>st'. res = Inr st' \<longrightarrow> sane st' \<and> fair lib (view st') \<and> active (view st') = 0 \<and> live (view st') = {}"
    by blast
  have "num_active_input_tracks st' = 0 \<and>
        (\<forall>m \<in> set (input (files st')). \<forall>t \<in> set (track m). reach_end_of_media_timeline t)"
    if "res = Inr st'" for st'
  proof -
    from res(2) that have "active (view st') = 0" "live (view st') = {}" by simp_all
    then show ?thesis using ended_everywhere [of st'] by (simp add: view_def)
  qed
  with res(1) show ?thesis by blast
qed

lemma wired_example: "wired (sample_io [(''a'', [[]]), (''b'', [[5]])])"
  by (simp add: wired_def sample_io_def sample_track_def offset_def)

lemma finite_example:
  "finite_media (sample_library [(''a'', [[]]), (''b'', [[5]])]) (sample_io [(''a'', [[]]), (''b'', [[5]])])"
  unfolding finite_media_def
  apply (simp add: sample_io_def sample_library_def sample_track_def)
  apply (intro conjI exI [of _ 2] exI [of _ 1])
  apply simp_all
  done

theorem mux_loop_ends_with_no_active_track_witness:
  "wired (sample_io [(''a'', [[]]), (''b'', [[5]])]) \<and>
   finite_media (sample_library [(''a'', [[]]), (''b'', [[5]])]) (sample_io [(''a'', [[]]), (''b'', [[5]])]) \<and>
   (\<exists>res. mux_loop (sample_library [(''a'', [[]]), (''b'', [[5]])])
             (start_muxing (sample_io [(''a'', [[]]), (''b'', [[5]])])) = Some res)"
  using mux_loop_ends_with_no_active_track [OF wired_example finite_example]
    wired_example finite_example by blast

subsection \<open>Runs of the loop\<close>

lemma sched_turns_numeral:
  "sched_turns lib (numeral k) v =
     (case sched_step lib v of
        Continue v' \<Rightarrow> sched_turns lib (pred_numeral k) v'
      | Break v' \<Rightarrow> Break v'
      | Abort e \<Rightarrow> Abort e)"
  by (simp add: numeral_eq_Suc)

lemmas run_defs = sched_step_def view_def start_muxing_def sample_io_def sample_library_def
  sample_track_def place_def offset_def movie_slots_def advance_def uint32_inc_def uint32_dec_def
  LSMASH_MAX_def Let_def sched_turns_numeral

lemma reached_turns:
  assumes "sane st" "reached (mux_turns lib n st) = Some st'"
  shows "sane st'" and "reached (sched_turns lib n (view st)) = Some (view st')"
  using mux_turns_simulates [OF assms(1), of lib n] assms(2)
  by (cases rule: simulates_cases; simp)+

lemma reached_by_schedule:
  assumes "sane st" "map_option f (reached (sched_turns lib n (view st))) = Some y"
  shows "\<exists>st'. reached (mux_turns lib n st) = Some st' \<and> f (view st') = y"
  using mux_turns_simulates [OF assms(1), of lib n] assms(2)
  by (cases rule: simulates_cases) auto

lemma reached_one_turn: "reached (mux_turns lib (Suc 0) st) = reached (mux_step lib st)"
  by (cases "mux_step lib st") simp_all

lemma mux_turns_by_schedule:
  assumes "sane st" "map_step f (sched_turns lib n (view st)) = Break y"
  shows "\<exists>st'. mux_turns lib n st = Break st' \<and> f (view st') = y"
proof -
  from assms(2) obtain v where v: "sched_turns lib n (view st) = Break v" "f v = y"
    by (cases "sched_turns lib n (view st)") auto
  from mux_turns_simulates [OF assms(1), of lib n] v(1)
  obtain st' where "mux_turns lib n st = Break st'" "view st' = v"
    by (cases rule: simulates_cases) auto
  with v(2) show ?thesis by auto
qed

lemma mux_loop_by_schedule:
  assumes "sane st" "map_step f (sched_turns lib n (view st)) = Break y"
  shows "\<exists>st'. mux_loop lib st = Some (Inr st') \<and> f (view st') = y"
  using mux_turns_by_schedule [OF assms] mux_loop_turns(1) [of lib n st] by blast

lemma fair_turns:
  "fair lib v \<Longrightarrow> reached (sched_turns lib n v) = Some v' \<Longrightarrow> fair lib v'"
proof (induction n arbitrary: v)
  case 0
  then show ?case by simp
next
  case (Suc n)
  show ?case
  proof (cases "sched_step lib v")
    case (Continue w)
    then have "fair lib w" using fair_step [OF Suc.prems(1), of w] by simp
    with Suc.IH [of w] Suc.prems(2) Continue show ?thesis by simp
  next
    case (Break w)
    with Suc.prems fair_step [of lib v w] show ?thesis by simp
  next
    case (Abort e)
    with Suc.prems show ?thesis by simp
  qed
qed

lemma break_turns:
  assumes "fair lib v" "sched_turns lib n v = Break v'"
  shows "live v' = {}"
  using assms
proof (induction n arbitrary: v)
  case 0
  then show ?case by simp
next
  case (Suc n)
  show ?case
  proof (cases "sched_step lib v")
    case (Continue w)
    then have "fair lib w" using fair_step [OF Suc.prems(1), of w] by simp
    from Suc.IH [OF this] Suc.prems(2) Continue show ?thesis by simp
  next
    case (Break w)
    with at_break(3) [OF Suc.prems(1), of w] Suc.prems(2) show ?thesis by simp
  next
    case (Abort e)
    with Suc.prems(2) show ?thesis by simp
  qed
qed

lemma turn_start_view: "sane st \<Longrightarrow> turn_start st = sched_start (view st)"
  using slot_at_place [of st]
  by (simp add: turn_start_def sched_start_def) (simp add: view_def)

lemma run_table_by_schedule:
  fixes lib :: "('r, 'm, 's, 't::{linorder,zero}) lsmash"
  assumes "wired io"
  shows "run_table lib io n =
     map (\<lambda>k. map_option sched_start
       (reached (sched_turns lib k (view (start_muxing io :: ('r, 'm, 't) muxer))))) [0 ..< n]"
proof -
  let ?st = "start_muxing io :: ('r, 'm, 't) muxer"
  have s: "sane ?st" by (rule start_sane [OF assms])
  have "map_option turn_start (reached (mux_turns lib k ?st))
      = map_option sched_start (reached (sched_turns lib k (view ?st)))" for k
    using mux_turns_simulates [OF s, of lib k]
    by (cases rule: simulates_cases) (simp_all add: turn_start_view)
  then show ?thesis by (simp add: run_table_def)
qed

lemma wired_scenario: "wired (sample_io scenario)"
  by (simp add: wired_def sample_io_def sample_track_def offset_def scenario_def)

lemma finite_scenario: "finite_media (sample_library scenario) (sample_io scenario)"
  unfolding finite_media_def
  apply (simp add: sample_io_def sample_library_def sample_track_def scenario_def)
  apply (intro conjI exI [of _ 4])
  apply simp_all
  done

lemma wired_uneven: "wired (sample_io uneven)"
  by (simp add: wired_def sample_io_def sample_track_def offset_def uneven_def)

subsection \<open>The order of the transfers in a run of two files\<close>

lemma scenario_schedule:
  "map_step (\<lambda>v. map sent (history v))
     (sched_turns (sample_library scenario) 11 (view (start_muxing (sample_io scenario)))) =
   Break [(1, 1, 1, 0), (2, 1, 1, 0), (1, 1, 2, 1), (2, 1, 2, 2), (1, 1, 3, 2)]"
  by (simp add: run_defs scenario_def sent_def)

text \<open>
  Claim C1, as the program has it. Two input files of one track each, in the same time
  scale, the first with three samples of timestamps 0, 1, 2 and the second with two
  samples of timestamps 0, 2: the loop leaves by its \<^verbatim>\<open>break\<close>, and the samples it has
  transferred are, in order and written (movie, track, sample, timestamp):
  (1, 1, 1, 0), (2, 1, 1, 0), (1, 1, 2, 1), (2, 1, 2, 2), (1, 1, 3, 2). The second sample
  of the second file goes before the third of the first: when the first file's third
  sample is first looked at, the largest timestamp so far is 1 and only one turn has
  been skipped, so it is skipped too; the next turn finds two skips for two active
  tracks and transfers the second file's sample, which raises the largest timestamp
  to 2.
\<close>

theorem scenario_transfer_order:
  "\<exists>st'. mux_loop (sample_library scenario) (start_muxing (sample_io scenario)) = Some (Inr st') \<and>
     map sent (transfers st') =
       [(1, 1, 1, 0), (2, 1, 1, 0), (1, 1, 2, 1), (2, 1, 2, 2), (1, 1, 3, 2)]"
  using mux_loop_by_schedule [OF start_sane [OF wired_scenario] scenario_schedule]
  by (simp add: view_def)

text \<open>
  The order stated in claim C1, with the third sample of the first file before the
  second sample of the second file, is not the order of the run.
\<close>

theorem scenario_transfer_order_counterexample:
  "\<exists>st'. mux_loop (sample_library scenario) (start_muxing (sample_io scenario)) = Some (Inr st') \<and>
     map sent (transfers st') \<noteq>
       [(1, 1, 1, 0), (2, 1, 1, 0), (1, 1, 2, 1), (1, 1, 3, 2), (2, 1, 2, 2)]"
  using mux_loop_by_schedule [OF start_sane [OF wired_scenario] scenario_schedule]
  by (auto simp: view_def)

subsection \<open>The skip counter\<close>

text \<open>
  Claim C3, the part that holds. In every state the loop reaches from its start, for
  inputs that all have a track, \<^verbatim>\<open>num_consecutive_sample_skip\<close> is at most
  \<^verbatim>\<open>num_active_input_tracks\<close>, and the latter is the number of input tracks not marked
  ended.
\<close>

theorem skip_counter_bounded_by_active_tracks:
  fixes lib :: "('r, 'm, 's, 't::{linorder,zero}) lsmash"
  assumes "wired io" "reached (mux_turns lib n (start_muxing io)) = Some st"
  shows "num_consecutive_sample_skip st \<le> num_active_input_tracks st \<and>
         num_active_input_tracks st = card (live (view st))"
proof -
  note r = reached_turns [OF start_sane [OF assms(1)] assms(2)]
  have f: "fair lib (view st)" by (rule fair_turns [OF start_fair(1) [OF assms(1)] r(2)])
  from fair_skips_le [OF f] have "num_consecutive_sample_skip st \<le> num_active_input_tracks st"
    by (simp add: view_def)
  moreover from f have "num_active_input_tracks st = card (live (view st))"
    by (simp add: fair_def) (simp add: view_def)
  ultimately show ?thesis by simp
qed

lemma uneven_two_turns:
  "map_option (\<lambda>v. (skips v, active v))
     (reached (sched_turns (sample_library uneven) 2 (view (start_muxing (sample_io uneven)))))
   = Some (2, 2)"
  by (simp add: run_defs uneven_def)

theorem skip_counter_bounded_by_active_tracks_witness:
  "wired (sample_io uneven) \<and>
   (\<exists>st. reached (mux_turns (sample_library uneven) 2 (start_muxing (sample_io uneven))) = Some st \<and>
      num_consecutive_sample_skip st \<le> num_active_input_tracks st \<and>
      num_consecutive_sample_skip st = 2 \<and> num_active_input_tracks st = 2)"
proof -
  from reached_by_schedule [OF start_sane [OF wired_uneven] uneven_two_turns]
  obtain st where st: "reached (mux_turns (sample_library uneven) 2 (start_muxing (sample_io uneven))) = Some st"
    "(skips (view st), active (view st)) = (2, 2)"
    by (elim exE conjE)
  from st(2) have v: "num_consecutive_sample_skip st = 2" "num_active_input_tracks st = 2"
    by (simp_all add: view_def)
  from skip_counter_bounded_by_active_tracks [OF wired_uneven st(1)]
  have "num_consecutive_sample_skip st \<le> num_active_input_tracks st" by (rule conjunct1)
  with wired_uneven st(1) v show ?thesis
    by - (intro conjI exI [of _ st]; assumption)
qed

lemma uneven_table:
  "map (\<lambda>k. map_option sched_start
       (reached (sched_turns (sample_library uneven) k (view (start_muxing (sample_io uneven))))))
     [0 ..< 16] =
   [Some ((1, 1), 0, 2, 0), Some ((2, 1), 1, 2, 0), Some ((1, 1), 2, 2, 0),
    Some ((2, 1), 0, 2, 1), Some ((1, 1), 0, 2, 2), Some ((2, 1), 1, 2, 2),
    Some ((1, 1), 0, 2, 3), Some ((2, 1), 1, 2, 3), Some ((1, 1), 0, 2, 4),
    Some ((2, 1), 1, 2, 4), Some ((1, 1), 0, 2, 5), Some ((2, 1), 1, 2, 5),
    Some ((1, 1), 0, 2, 6), Some ((2, 1), 1, 2, 6), Some ((1, 1), 1, 1, 6),
    Some ((2, 1), 0, 1, 7)]"
  by (simp add: run_defs uneven_def sched_start_def upt_conv_Cons)

text \<open>
  Claim C3, the part that fails: the counter does not bound the visits to one track
  between two of its own transfers, since a transfer from any other track resets it.
  In the run on \<open>uneven\<close> the first track has samples of timestamps 10 and 20 and the
  second five samples of timestamps 1 to 5. Each line of the table is the start of a
  turn: the movie and track looked at, the skip counter, the count of active tracks,
  the number of samples transferred so far. The third turn transfers the first sample
  of track (1, 1) and the fifteenth its second sample; in between, the turns 5, 7, 9, 11
  and 13 look at track (1, 1) and transfer nothing, five visits while no more than two
  tracks are active.
\<close>

theorem visits_between_transfers_counterexample:
  "run_table (sample_library uneven) (sample_io uneven) 16 =
   [Some ((1, 1), 0, 2, 0), Some ((2, 1), 1, 2, 0), Some ((1, 1), 2, 2, 0),
    Some ((2, 1), 0, 2, 1), Some ((1, 1), 0, 2, 2), Some ((2, 1), 1, 2, 2),
    Some ((1, 1), 0, 2, 3), Some ((2, 1), 1, 2, 3), Some ((1, 1), 0, 2, 4),
    Some ((2, 1), 1, 2, 4), Some ((1, 1), 0, 2, 5), Some ((2, 1), 1, 2, 5),
    Some ((1, 1), 0, 2, 6), Some ((2, 1), 1, 2, 6), Some ((1, 1), 1, 1, 6),
    Some ((2, 1), 0, 1, 7)]"
  by (simp only: run_table_by_schedule [OF wired_uneven] uneven_table)

subsection \<open>The samples of an output track\<close>

lemma in_order_cong:
  assumes "in_order lib v i"
    and "slots w ! i = slots v ! i" "out_tracks w ! i = out_tracks v ! i" "history w = history v"
  shows "in_order lib w i"
  using assms by (simp add: in_order_def slot_log_def ended_def)

lemma logged_advance: "logged lib (advance v) = logged lib v"
  by (simp add: logged_def in_order_def slot_log_def ended_def)

lemma logged_pass: "logged lib (pass v) = logged lib v"
  by (simp add: logged_def in_order_def slot_log_def ended_def pass_def)

lemma logged_finish:
  assumes "logged lib v" "position v < length (slots v)" "\<not> has_dts lib (slots v ! position v)"
  shows "logged lib (finish_track v)"
proof -
  let ?p = "position v"
  let ?f = "\<lambda>t. t\<lparr>reach_end_of_media_timeline := True\<rparr>"
  let ?w = "finish_track v"
  have w: "out_tracks ?w = out_tracks v" "history ?w = history v"
    "length (slots ?w) = length (slots v)"
    by (simp_all add: finish_track_def)
  have sl: "slots ?w ! i = (if i = ?p then (slots v ! i)\<lparr>slot_in := ?f (slot_in (slots v ! i))\<rparr> else slots v ! i)"
    if "i < length (slots v)" for i
    using that by (simp add: finish_track_def slots_on_track)
  have "in_order lib ?w i" if i: "i < length (slots v)" for i
  proof (cases "i = ?p")
    case False
    from assms(1) i have "in_order lib v i" by (simp add: logged_def)
    then show ?thesis by (rule in_order_cong) (simp_all add: w sl [OF i] False)
  next
    case True
    from assms(1,2) have o: "in_order lib v ?p" by (simp add: logged_def)
    have y: "slots ?w ! ?p = (slots v ! ?p)\<lparr>slot_in := ?f (slot_in (slots v ! ?p))\<rparr>"
      using sl [OF assms(2)] by simp
    have dy: "dts_of lib (slots ?w ! ?p) = dts_of lib (slots v ! ?p)"
      by (rule dts_of_same) (simp_all add: y)
    have fy: "current_sample_number (slot_in (slots ?w ! ?p)) = current_sample_number (slot_in (slots v ! ?p))"
      "slot_movie (slots ?w ! ?p) = slot_movie (slots v ! ?p)"
      "slot_track (slots ?w ! ?p) = slot_track (slots v ! ?p)"
      by (simp_all add: y)
    from assms(3) have "dts_of lib (slots v ! ?p) (current_sample_number (slot_in (slots v ! ?p))) = None"
      by (simp add: has_dts_def)
    with o show ?thesis
      unfolding True in_order_def slot_log_def by (simp only: dy fy w) simp
  qed
  with assms(1) show ?thesis by (simp add: logged_def w)
qed

lemma logged_take:
  assumes "logged lib v" "fair lib v" "bounded lib v" "\<not> ended v (position v)"
    "dts_of lib (slots v ! position v) (current_sample_number (slot_in (slots v ! position v))) = Some d"
  shows "logged lib (take_sample lib d ro v)"
proof -
  let ?p = "position v"
  let ?x = "slots v ! ?p"
  let ?c = "current_sample_number (slot_in ?x)"
  let ?f = "\<lambda>t. t\<lparr>current_sample_number := uint32_inc (current_sample_number t)\<rparr>"
  let ?w = "take_sample lib d ro v"
  let ?e = "\<lparr>source = slot_movie ?x, source_track = slot_track ?x, sample_number = ?c,
             sample_dts = d, target_track = Suc ?p\<rparr>"
  from assms(2) have p: "?p < length (slots v)" by (simp add: fair_def)
  from assms(1) have len: "length (out_tracks v) = length (slots v)" by (simp add: logged_def)
  have some: "dts_of lib ?x ?c \<noteq> None" using assms(5) by simp
  have inc: "uint32_inc ?c = Suc ?c"
    using bounded_cursor(1) [OF assms(3) p some] by (simp add: uint32_inc_def)
  have w: "history ?w = history v @ [?e]" "length (slots ?w) = length (slots v)"
    "length (out_tracks ?w) = length (out_tracks v)"
    by (simp_all add: take_sample_def)
  have sl: "slots ?w ! i = (if i = ?p then (slots v ! i)\<lparr>slot_in := ?f (slot_in (slots v ! i))\<rparr> else slots v ! i)"
    if "i < length (slots v)" for i
    using that by (simp add: take_sample_def slots_on_track)
  have ou: "out_tracks ?w ! i = (if i = ?p then (out_tracks v ! i)\<lparr>current_sample_number :=
      uint32_inc (current_sample_number (out_tracks v ! i))\<rparr> else out_tracks v ! i)"
    if "i < length (slots v)" for i
    using that len by (simp add: take_sample_def)
  have "in_order lib ?w i" if i: "i < length (slots v)" for i
  proof (cases "i = ?p")
    case False
    from assms(1) i have o: "in_order lib v i" by (simp add: logged_def)
    have "slot_log ?w i = slot_log v i" using False by (simp add: slot_log_def w)
    with o show ?thesis
      by (simp add: in_order_def ended_def sl [OF i] ou [OF i] False)
  next
    case True
    from assms(1) p have o: "in_order lib v ?p" by (simp add: logged_def)
    have y: "slots ?w ! ?p = ?x\<lparr>slot_in := ?f (slot_in ?x)\<rparr>" using sl [OF p] by simp
    have dy: "dts_of lib (slots ?w ! ?p) = dts_of lib ?x"
      by (rule dts_of_same) (simp_all add: y)
    have fy: "current_sample_number (slot_in (slots ?w ! ?p)) = Suc ?c"
      "slot_movie (slots ?w ! ?p) = slot_movie ?x"
      "slot_track (slots ?w ! ?p) = slot_track ?x"
      by (simp_all add: y inc)
    have c1: "1 \<le> ?c" and oc: "current_sample_number (out_tracks v ! ?p) = ?c"
      and lg: "slot_log v ?p = map (\<lambda>k. (slot_movie ?x, slot_track ?x, k)) [1 ..< ?c]"
      and ex: "\<And>k. 1 \<le> k \<Longrightarrow> k < ?c \<Longrightarrow> dts_of lib ?x k \<noteq> None"
      using o by (simp_all add: in_order_def)
    have oy: "current_sample_number (out_tracks ?w ! ?p) = Suc ?c"
      by (simp add: ou [OF p] oc inc)
    have "slot_log ?w ?p = slot_log v ?p @ [(slot_movie ?x, slot_track ?x, ?c)]"
      by (simp add: slot_log_def w)
    also have "\<dots> = map (\<lambda>k. (slot_movie ?x, slot_track ?x, k)) [1 ..< Suc ?c]"
      using c1 by (simp add: lg)
    finally have lg': "slot_log ?w ?p = map (\<lambda>k. (slot_movie ?x, slot_track ?x, k)) [1 ..< Suc ?c]" .
    have ex': "dts_of lib ?x k \<noteq> None" if "1 \<le> k \<and> k < Suc ?c" for k
      using that ex [of k] some by (cases "k = ?c") simp_all
    have ne: "\<not> ended ?w ?p" using assms(4) by (simp add: ended_def y)
    show ?thesis
      unfolding True in_order_def
      using ne ex' by (simp only: dy fy oy lg') simp
  qed
  with len show ?thesis by (simp add: logged_def w)
qed

lemma logged_step:
  assumes "logged lib v" "fair lib v" "bounded lib v" "reached (sched_step lib v) = Some v'"
  shows "logged lib v'"
  using assms(4)
proof (cases rule: sched_step_cases)
  case idle
  with assms(1) show ?thesis by (simp add: logged_advance)
next
  case finish
  from assms(2) have p: "position v < length (slots v)" by (simp add: fair_def)
  from finish(3) have "v' = finish_track v \<or> v' = advance (finish_track v)"
    by (auto split: if_splits)
  with logged_finish [OF assms(1) p finish(2)] show ?thesis by (auto simp: logged_advance)
next
  case (take d ro)
  with logged_take [OF assms(1,2,3) take(1,2), of ro] show ?thesis by (simp add: logged_advance)
next
  case (pass d)
  with assms(1) show ?thesis by (simp add: logged_advance logged_pass)
qed


lemma logged_turns:
  assumes "fair lib v" "bounded lib v" "0 < active v" "logged lib v"
    and "reached (sched_turns lib n v) = Some v'"
  shows "logged lib v'"
  using assms
proof (induction n arbitrary: v)
  case 0
  then show ?case by simp
next
  case (Suc n)
  show ?case
  proof (cases "sched_step lib v")
    case (Continue w)
    note pr = progress [OF Suc.prems(1,2,3) Continue]
    have "logged lib w" using logged_step [OF Suc.prems(4,1,2), of w] Continue by simp
    from Suc.IH [OF pr(1,2,3) this] Suc.prems(5) Continue show ?thesis by simp
  next
    case (Break w)
    with logged_step [OF Suc.prems(4,1,2), of w] Suc.prems(5) show ?thesis by simp
  next
    case (Abort e)
    with Suc.prems(5) show ?thesis by simp
  qed
qed

lemma start_logged:
  fixes lib :: "('r, 'm, 's, 't::zero) lsmash"
  assumes "wired io"
  shows "logged lib (view (start_muxing io :: ('r, 'm, 't) muxer))"
proof -
  let ?v = "view (start_muxing io :: ('r, 'm, 't) muxer)"
  have len: "length (track (output io)) = length (slots_of 1 (input io))"
    using assms by (simp add: wired_def length_slots_of)
  have "in_order lib ?v i" if i: "i < length (slots_of 1 (input io))" for i
  proof -
    from i len have "track (output io) ! i \<in> set (track (output io))" by simp
    with assms have "current_sample_number (track (output io) ! i) = 1" by (simp add: wired_def)
    with start_slot [OF assms i] show ?thesis
      by (simp add: in_order_def slot_log_def ended_def start_view)
  qed
  with len show ?thesis by (simp add: logged_def start_view)
qed

lemma sample_count_ended:
  assumes "in_order lib v i" "ended v i"
  shows "current_sample_number (slot_in (slots v ! i)) = Suc (sample_count lib (slots v ! i))"
proof -
  let ?x = "slots v ! i"
  let ?c = "current_sample_number (slot_in ?x)"
  from assms have c: "1 \<le> ?c" "dts_of lib ?x ?c = None"
    and ex: "\<And>k. 1 \<le> k \<Longrightarrow> k < ?c \<Longrightarrow> dts_of lib ?x k \<noteq> None"
    by (simp_all add: in_order_def)
  have "(LEAST n. dts_of lib ?x (Suc n) = None) = ?c - 1"
  proof (rule Least_equality)
    show "dts_of lib ?x (Suc (?c - 1)) = None" using c by simp
    fix n assume n: "dts_of lib ?x (Suc n) = None"
    show "?c - 1 \<le> n"
    proof (rule ccontr)
      assume "\<not> ?c - 1 \<le> n"
      then have "Suc n < ?c" by simp
      with ex [of "Suc n"] n show False by simp
    qed
  qed
  with c(1) show ?thesis by (simp add: sample_count_def)
qed

text \<open>
  Claim C4. In every state the loop reaches from its start, for inputs that all have a
  track and finite tracks, the samples transferred to an output track are, in order,
  the samples 1, 2, ... of its input track up to the one before the cursor
  \<^verbatim>\<open>current_sample_number\<close> of the output track, and the cursor of the input track
  stands at the same number: a cursor is one more than the number of samples appended,
  so it has moved only with a sample appended. At the \<^verbatim>\<open>break\<close> the cursor is one more
  than the number of samples of the track, so the samples transferred are all of them.
\<close>

theorem samples_transferred_in_order:
  fixes lib :: "('r, 'm, 's, 't::{linorder,zero}) lsmash"
  assumes "wired io" "finite_media lib io"
    and "reached (mux_turns lib n (start_muxing io)) = Some st"
    and "i < length (track (output (files st)))"
  shows "map sample_number (filter (\<lambda>e. target_track e = Suc i) (transfers st))
           = [1 ..< current_sample_number (track (output (files st)) ! i)] \<and>
         current_sample_number (slot_in (slots_of 1 (input (files st)) ! i))
           = current_sample_number (track (output (files st)) ! i) \<and>
         (mux_turns lib n (start_muxing io) = Break st \<longrightarrow>
            current_sample_number (track (output (files st)) ! i)
              = Suc (sample_count lib (slots_of 1 (input (files st)) ! i)))"
proof -
  let ?st = "start_muxing io :: ('r, 'm, 't) muxer"
  let ?v = "view st"
  note s = start_sane [OF assms(1)]
  note r = reached_turns [OF s assms(3)]
  note f = start_fair(1) [OF assms(1), of lib] start_fair(2) [OF assms(1)]
  have lg: "logged lib ?v"
    by (rule logged_turns [OF f(1) start_bounded [OF assms(1,2)] f(2) start_logged [OF assms(1)] r(2)])
  have v: "out_tracks ?v = track (output (files st))" "history ?v = transfers st"
    "slots ?v = slots_of 1 (input (files st))"
    by (simp_all add: view_def)
  from lg assms(4) have i: "i < length (slots ?v)" by (simp add: logged_def v)
  with lg have o: "in_order lib ?v i" by (simp add: logged_def)
  let ?c = "current_sample_number (slot_in (slots ?v ! i))"
  from o have oc: "current_sample_number (out_tracks ?v ! i) = ?c"
    and sl: "slot_log ?v i = map (\<lambda>k. (slot_movie (slots ?v ! i), slot_track (slots ?v ! i), k)) [1 ..< ?c]"
    by (simp_all add: in_order_def)
  have "map sample_number (filter (\<lambda>e. target_track e = Suc i) (history ?v))
      = map (\<lambda>q. snd (snd q)) (slot_log ?v i)"
    by (simp add: slot_log_def comp_def)
  also have "\<dots> = [1 ..< ?c]" by (simp add: sl comp_def)
  finally have 1: "map sample_number (filter (\<lambda>e. target_track e = Suc i) (history ?v)) = [1 ..< ?c]" .
  have 3: "?c = Suc (sample_count lib (slots ?v ! i))"
    if b: "mux_turns lib n ?st = Break st"
  proof -
    from mux_turns_simulates [OF s, of lib n] b have "sched_turns lib n (view ?st) = Break ?v"
      by (cases rule: simulates_cases) auto
    from break_turns [OF f(1) this] i have "ended ?v i" by (auto simp: live_def)
    with o show ?thesis by (rule sample_count_ended)
  qed
  from 1 oc 3 show ?thesis unfolding v by simp
qed

lemma scenario_cursors:
  "map_step (\<lambda>v. map current_sample_number (out_tracks v))
     (sched_turns (sample_library scenario) 11 (view (start_muxing (sample_io scenario)))) =
   Break [4, 3]"
  by (simp add: run_defs scenario_def)

theorem samples_transferred_in_order_witness:
  "wired (sample_io scenario) \<and> finite_media (sample_library scenario) (sample_io scenario) \<and>
   (\<exists>st. mux_turns (sample_library scenario) 11 (start_muxing (sample_io scenario)) = Break st \<and>
      1 < length (track (output (files st))) \<and>
      map sample_number (filter (\<lambda>e. target_track e = 2) (transfers st)) = [1, 2] \<and>
      sample_count (sample_library scenario) (slots_of 1 (input (files st)) ! 1) = 2)"
proof -
  from mux_turns_by_schedule [OF start_sane [OF wired_scenario] scenario_cursors]
  obtain st where st: "mux_turns (sample_library scenario) 11 (start_muxing (sample_io scenario)) = Break st"
    "map current_sample_number (out_tracks (view st)) = [4, 3]"
    by (elim exE conjE)
  from st(2) have "map current_sample_number (track (output (files st))) = [4, 3]"
    by (simp add: view_def)
  then have l: "length (track (output (files st))) = 2"
    and c: "current_sample_number (track (output (files st)) ! 1) = 3"
    by (auto simp: map_eq_Cons_conv)
  from st(1) have r: "reached (mux_turns (sample_library scenario) 11 (start_muxing (sample_io scenario))) = Some st"
    by simp
  from l have i: "1 < length (track (output (files st)))" by simp
  have u: "[Suc 0 ..< 3] = [1, 2]" by (simp add: upt_conv_Cons)
  from samples_transferred_in_order [OF wired_scenario finite_scenario r i] st(1) c u
  have "map sample_number (filter (\<lambda>e. target_track e = 2) (transfers st)) = [1, 2]"
    "sample_count (sample_library scenario) (slots_of 1 (input (files st)) ! 1) = 2"
    by (simp_all add: numeral_2_eq_2)
  with wired_scenario finite_scenario st(1) i show ?thesis
    by - (intro conjI exI [of _ st]; assumption)
qed

subsection \<open>The largest timestamp\<close>

lemma move_keeps:
  "largest_dts (move_to_next_track st) = largest_dts st"
  "transfers (move_to_next_track st) = transfers st"
  by (simp_all add: move_to_next_track_def Let_def update_movie_def update_output_def)

lemma LSMASH_MAX_max: "LSMASH_MAX a b = max a b"
  by (auto simp: LSMASH_MAX_def max_def)

lemma watermark_step:
  assumes "reached (mux_step lib st) = Some st'"
  shows "(transfers st' = transfers st \<and> largest_dts st' = largest_dts st) \<or>
         (\<exists>e. transfers st' = transfers st @ [e] \<and>
              largest_dts st' = max (largest_dts st)
                (seconds lib (sample_dts e) (timescale (media_param (visited_track st)))))"
proof -
  define movie where "movie = input (files st) ! (input_movie_number st - 1)"
  define in_track where "in_track = track movie ! (current_track_number movie - 1)"
  have vt: "visited_track st = in_track" by (simp add: visited_track_def in_track_def movie_def)
  from assms have m: "element (input (files st)) (input_movie_number st) = Some movie"
    by (auto simp: mux_step_def element_def movie_def split: if_splits)
  with assms have t: "element (track movie) (current_track_number movie) = Some in_track"
    by (auto simp: mux_step_def element_def in_track_def split: if_splits)
  show ?thesis
  proof (cases "reach_end_of_media_timeline in_track")
    case True
    with assms m t show ?thesis by (auto simp: mux_step_def move_keeps)
  next
    case False
    with assms m t obtain out_track movie_root where
      o: "element (track (output (files st))) (current_track_number (output (files st))) = Some out_track"
      and r: "root movie = Some movie_root"
      by (auto simp: mux_step_def split: option.splits)
    note unf = mux_step_def m t o r Let_def
    show ?thesis
    proof (cases "lsmash_get_dts_from_media_timeline lib movie_root (track_ID in_track)
                    (current_sample_number in_track)")
      case None
      with assms False show ?thesis
        by (auto simp: unf move_keeps update_movie_def split: if_splits)
    next
      case (Some dts)
      show ?thesis
      proof (cases "seconds lib dts (timescale (media_param in_track)) \<le> largest_dts st
                    \<or> num_consecutive_sample_skip st = num_active_input_tracks st")
        case no: False
        with assms False Some show ?thesis by (auto simp: unf move_keeps)
      next
        case True
        with assms False Some obtain sample output_root output_root' where
          "lsmash_get_sample_from_media_timeline lib movie_root (track_ID in_track)
             (current_sample_number in_track) = Some sample"
          "root (output (files st)) = Some output_root"
          "lsmash_append_sample lib output_root (track_ID out_track) sample = Some output_root'"
          by (auto simp: unf split: option.splits)
        with assms False Some True show ?thesis
          by (auto simp: unf move_keeps update_movie_def update_output_def LSMASH_MAX_max vt)
      qed
    qed
  qed
qed

lemma watermark_turns:
  fixes lib :: "('r, 'm, 's, 't::linorder) lsmash"
  shows "reached (mux_turns lib n st) = Some st' \<Longrightarrow> largest_dts st \<le> largest_dts st'"
proof (induction n arbitrary: st)
  case 0
  then show ?case by simp
next
  case (Suc n)
  show ?case
  proof (cases "mux_step lib st")
    case (Continue st1)
    then have "largest_dts st \<le> largest_dts st1"
      using watermark_step [of lib st st1] by auto
    moreover have "largest_dts st1 \<le> largest_dts st'"
      using Suc.IH [of st1] Suc.prems Continue by simp
    ultimately show ?thesis by simp
  next
    case (Break st1)
    then have "largest_dts st \<le> largest_dts st1"
      using watermark_step [of lib st st1] by auto
    with Suc.prems Break show ?thesis by simp
  next
    case (Abort e)
    with Suc.prems show ?thesis by simp
  qed
qed


text \<open>
  Claim C5. \<^verbatim>\<open>largest_dts\<close> is 0 when the loop starts; a turn that transfers a sample
  sets it to the larger of its value and the timestamp of the sample divided by the
  time scale of the track, and a turn that transfers nothing leaves it as it is; and
  it never decreases from a state of the loop to a later one. The quotients are taken
  in a linear order, as they are for time scales other than 0.
\<close>

theorem watermark_is_running_maximum:
  fixes lib :: "('r, 'm, 's, 't::{linorder,zero}) lsmash"
  shows "largest_dts (start_muxing io :: ('r, 'm, 't) muxer) = 0 \<and>
    (reached (mux_step lib st) = Some st1 \<longrightarrow>
       (transfers st1 = transfers st \<and> largest_dts st1 = largest_dts st) \<or>
       (\<exists>e. transfers st1 = transfers st @ [e] \<and>
            largest_dts st1 = max (largest_dts st)
              (seconds lib (sample_dts e) (timescale (media_param (visited_track st)))))) \<and>
    (reached (mux_turns lib n st) = Some st' \<longrightarrow> largest_dts st \<le> largest_dts st')"
  using watermark_step [of lib st st1] watermark_turns [of lib n st st']
  by (simp add: start_muxing_def)

lemma scenario_first_turn:
  "map_option (\<lambda>v. length (history v))
     (reached (sched_turns (sample_library scenario) (Suc 0) (view (start_muxing (sample_io scenario)))))
   = Some 1"
  by (simp add: run_defs scenario_def)

lemma scenario_five_turns:
  "map_option watermark
     (reached (sched_turns (sample_library scenario) 5 (view (start_muxing (sample_io scenario)))))
   = Some 1"
  by (simp add: run_defs scenario_def)

theorem watermark_is_running_maximum_witness:
  "largest_dts (start_muxing (sample_io scenario) :: (nat \<times> nat, unit, rat) muxer) = 0 \<and>
   (\<exists>st1 e. reached (mux_step (sample_library scenario) (start_muxing (sample_io scenario))) = Some st1 \<and>
      transfers st1 = [e] \<and>
      largest_dts st1 = max 0 (seconds (sample_library scenario) (sample_dts e) 1)) \<and>
   (\<exists>st'. reached (mux_turns (sample_library scenario) 5 (start_muxing (sample_io scenario))) = Some st' \<and>
      largest_dts (start_muxing (sample_io scenario) :: (nat \<times> nat, unit, rat) muxer) \<le> largest_dts st' \<and>
      largest_dts st' = 1)"
proof -
  let ?lib = "sample_library scenario"
  let ?st = "start_muxing (sample_io scenario) :: (nat \<times> nat, unit, rat) muxer"
  note s = start_sane [OF wired_scenario]
  from reached_by_schedule [OF s scenario_first_turn]
  obtain st1 where st1: "reached (mux_turns ?lib (Suc 0) ?st) = Some st1" "length (history (view st1)) = 1"
    by (elim exE conjE)
  from st1(1) have r1: "reached (mux_step ?lib ?st) = Some st1" by (simp only: reached_one_turn)
  from reached_by_schedule [OF s scenario_five_turns]
  obtain st' where st': "reached (mux_turns ?lib 5 ?st) = Some st'" "watermark (view st') = 1"
    by (elim exE conjE)
  note th = watermark_is_running_maximum [of "sample_io scenario" ?lib ?st st1 5 st']
  from th have a: "largest_dts ?st = 0" by (rule conjunct1)
  have t0: "transfers ?st = []" by (simp add: start_muxing_def)
  have ts: "timescale (media_param (visited_track ?st)) = 1"
    by (simp add: visited_track_def start_muxing_def sample_io_def scenario_def sample_track_def)
  from st1(2) have "transfers st1 \<noteq> transfers ?st" by (auto simp: view_def t0)
  with th r1 obtain e where e: "transfers st1 = transfers ?st @ [e]"
    "largest_dts st1 = max (largest_dts ?st)
       (seconds ?lib (sample_dts e) (timescale (media_param (visited_track ?st))))"
    by auto
  from e have b: "transfers st1 = [e]" "largest_dts st1 = max 0 (seconds ?lib (sample_dts e) 1)"
    by (simp_all only: t0 ts a append_Nil)
  from th st'(1) have c: "largest_dts ?st \<le> largest_dts st'" by simp
  from st'(2) have d: "largest_dts st' = 1" by (simp add: view_def)
  from a r1 b st'(1) c d show ?thesis
    by - (intro conjI exI [of _ st1] exI [of _ e] exI [of _ st']; assumption)
qed

subsection \<open>What the command line leaves untouched\<close>

lemma add_input_keeps:
  assumes "add_input lib arg s = Inr s'"
  shows "output (cli_io s') = output (cli_io s)" and "num_input (cli_io s') = num_input (cli_io s)"
  using assms
  by (auto simp: add_input_def Let_def split: prod.splits option.splits sum.splits if_splits)

lemma parse_arguments_num_input:
  "parse_arguments lib args s = Inr s' \<Longrightarrow> num_input (cli_io s') = num_input (cli_io s)"
proof (induction lib args s rule: parse_arguments.induct)
  case (1 lib s)
  then show ?case by simp
next
  case (2 lib a s)
  then show ?case by (simp split: if_splits)
next
  case (3 lib a arg args s)
  show ?case
  proof (cases "is_input_flag a")
    case True
    with "3.prems" obtain s1 where s1: "add_input lib arg s = Inr s1" "parse_arguments lib args s1 = Inr s'"
      by (cases "add_input lib arg s") simp_all
    from "3.IH"(1) [OF True s1] add_input_keeps(2) [OF s1(1)] show ?thesis by simp
  next
    case False
    with "3.prems" have o: "is_output_flag a" by (simp split: if_splits)
    with False "3.prems" "3.IH"(2) [OF False o] show ?thesis by simp
  qed
qed

lemma parse_arguments_output:
  "parse_arguments lib args s = Inr s' \<Longrightarrow> filter is_output_flag args = [] \<Longrightarrow>
   root (output (cli_io s')) = root (output (cli_io s))"
proof (induction lib args s rule: parse_arguments.induct)
  case (1 lib s)
  then show ?case by simp
next
  case (2 lib a s)
  then show ?case by (simp split: if_splits)
next
  case (3 lib a arg args s)
  from "3.prems"(2) have no: "\<not> is_output_flag a" "filter is_output_flag args = []"
    by (simp_all split: if_splits)
  with "3.prems"(1) have i: "is_input_flag a" by (simp split: if_splits)
  with "3.prems"(1) obtain s1 where s1: "add_input lib arg s = Inr s1" "parse_arguments lib args s1 = Inr s'"
    by (cases "add_input lib arg s") simp_all
  from "3.IH"(1) [OF i s1 no(2)] add_input_keeps(1) [OF s1(1)] show ?case by simp
qed

lemma split_track_options_keeps:
  "split_track_options todo s = Inr s' \<Longrightarrow>
   output (cli_io s') = output (cli_io s) \<and> num_input (cli_io s') = num_input (cli_io s)"
proof (induction todo arbitrary: s)
  case Nil
  then show ?case by simp
next
  case (Cons i todo)
  from Cons.prems obtain file_opt where f: "input_file_option s ! i = Some file_opt"
    by (cases "input_file_option s ! i") simp_all
  show ?case
  proof (cases "num_track_delimiter file_opt \<noteq> 0")
    case False
    with Cons.prems f have "split_track_options todo s = Inr s'" by (simp split: if_splits)
    then show ?thesis by (rule Cons.IH)
  next
    case True
    with Cons.prems f obtain opts saved where
      "split_track_options todo
         (s\<lparr>cli_io := (cli_io s)\<lparr>track_option := (track_option (cli_io s))[i := opts]\<rparr>,
            strtok_saved := saved\<rparr>) = Inr s'"
      by (auto split: if_splits sum.splits prod.splits)
    from Cons.IH [OF this] show ?thesis by simp
  qed
qed

lemma gather_cli_keeps:
  assumes "gather_cli lib argv io = Inr io'"
  shows "num_input io' = num_input io"
    and "filter is_output_flag (drop 1 argv) = [] \<Longrightarrow> root (output io') = root (output io)"
proof -
  let ?s0 = "\<lparr>cli_io = io, input_file_option = replicate (num_input io) None,
              cli_input_movie_number = 0, strtok_saved = []\<rparr>"
  from assms obtain s where s: "parse_arguments lib (drop 1 argv) ?s0 = Inr s"
    by (cases "parse_arguments lib (drop 1 argv) ?s0") (simp_all add: gather_cli_def)
  let ?s1 = "s\<lparr>cli_io := (cli_io s)\<lparr>track_option :=
      map (\<lambda>i. default_options (input (cli_io s) ! i) (track_option (cli_io s) ! i))
        [0 ..< num_input io]\<rparr>\<rparr>"
  from assms s obtain s' where s': "split_track_options [0 ..< num_input io] ?s1 = Inr s'" "io' = cli_io s'"
    by (cases "split_track_options [0 ..< num_input io] ?s1") (simp_all add: gather_cli_def)
  from split_track_options_keeps [OF s'(1)]
  have k: "output io' = output (cli_io s)" "num_input io' = num_input (cli_io s)"
    by (simp_all add: s'(2))
  from parse_arguments_num_input [OF s] k(2) show "num_input io' = num_input io" by simp
  assume "filter is_output_flag (drop 1 argv) = []"
  from parse_arguments_output [OF s this] k(1) show "root (output io') = root (output io)" by simp
qed

lemma parse_track_option_from_keeps:
  "parse_track_option_from lib todo io = Inr io' \<Longrightarrow> output io' = output io"
proof (induction todo arbitrary: io)
  case Nil
  then show ?case by simp
next
  case (Cons i todo)
  then show ?case by (auto split: sum.splits)
qed

lemma parse_track_option_keeps: "parse_track_option lib io = Inr io' \<Longrightarrow> output io' = output io"
  by (simp add: parse_track_option_def parse_track_option_from_keeps)

lemma parse_track_option_fails: "parse_track_option lib io = Inl e \<Longrightarrow> num_input io \<noteq> 0"
  by (cases "num_input io = 0") (simp_all add: parse_track_option_def)

lemma parse_cli_option_output:
  assumes "parse_cli_option lib argv io = Inr io'" "filter is_output_flag (drop 1 argv) = []"
  shows "root (output io') = root (output io)"
proof -
  from assms(1) obtain io1 where io1: "gather_cli lib argv io = Inr io1" "parse_track_option lib io1 = Inr io'"
    by (auto simp: parse_cli_option_def split: sum.splits)
  from parse_track_option_keeps [OF io1(2)] gather_cli_keeps(2) [OF io1(1) assms(2)]
  show ?thesis by simp
qed

lemma prepare_track_option_failure:
  assumes "5 \<le> length argv" "\<not> is_help_flag (argv ! 1)"
    and "gather_cli lib argv (initial_io (length (filter is_input_flag (drop 1 argv)))) = Inr io"
    and "parse_track_option lib io = Inl e"
  shows "main_prepare lib argv =
     Error [e, Failed_to_parse_track_options, Failed_to_parse_command_line_options]"
proof -
  let ?n = "length (filter is_input_flag (drop 1 argv))"
  from gather_cli_keeps(1) [OF assms(3)] parse_track_option_fails [OF assms(4)]
  have "?n \<noteq> 0" by (simp add: initial_io_def)
  moreover have "parse_cli_option lib argv (initial_io ?n) = Inl [e, Failed_to_parse_track_options]"
    using assms(3,4) by (simp add: parse_cli_option_def)
  ultimately show ?thesis using assms(1,2) by (simp add: main_prepare_def Let_def)
qed

lemmas cli_defs = main_prepare_def parse_cli_option_def gather_cli_def add_input_def get_movie_def
  parse_track_option_def is_input_flag_def is_output_flag_def
  is_help_flag_def strcasecmp_eq_def tolower_def strtok_def default_options_def
  set_movie_parameters_def output_movie_parameters_def brand_key_def gather_input_brands_def
  create_output_track_def uint32_inc_def uint32_add_def zero_movie_def zero_track_def zero_option_def
  initial_io_def
  sample_library_def sample_io_def sample_track_def Let_def

lemmas option_defs = parse_track_option_def parse_track_entry_def
  strchr_def strrchr_def strtok_def after_char_def atoi_def isspace_def
  isdigit_def to_uint32_def to_int16_def requested_def zero_movie_def Let_def

subsection \<open>Inputs and outputs on the command line\<close>

text \<open>
  Claim C9, the part that holds. When no argument is \<^verbatim>\<open>-i\<close> or \<^verbatim>\<open>--input\<close>, or none is
  \<^verbatim>\<open>-o\<close> or \<^verbatim>\<open>--output\<close>, \<^verbatim>\<open>main\<close> returns before the muxing loop: with \<open>-1\<close>, or
  with 0 when there are at least four arguments and the first asks for help.
\<close>

theorem no_input_or_no_output_ends_before_muxing:
  assumes "filter is_input_flag (drop 1 argv) = [] \<or> filter is_output_flag (drop 1 argv) = []"
  shows "exit_status (main_prepare lib argv) = Some (- 1) \<or>
         exit_status (main_prepare lib argv) = Some 0 \<and> 5 \<le> length argv \<and> is_help_flag (argv ! 1)"
proof (cases "length argv < 5 \<or> is_help_flag (argv ! 1)")
  case True
  then show ?thesis by (auto simp: main_prepare_def)
next
  case False
  let ?n = "length (filter is_input_flag (drop 1 argv))"
  show ?thesis
  proof (cases "?n = 0")
    case True
    with False show ?thesis by (simp add: main_prepare_def)
  next
    case n: False
    with assms have no: "filter is_output_flag (drop 1 argv) = []" by auto
    show ?thesis
    proof (cases "parse_cli_option lib argv (initial_io ?n)")
      case (Inl es)
      with False n show ?thesis by (simp add: main_prepare_def Let_def)
    next
      case (Inr io1)
      from parse_cli_option_output [OF Inr no] have "root (output io1) = None"
        by (simp add: initial_io_def zero_movie_def)
      with False n Inr show ?thesis by (simp add: main_prepare_def Let_def)
    qed
  qed
qed

lemma prepare_no_output:
  "main_prepare (sample_library scenario) [''remuxer'', ''-i'', ''a'', ''-i'', ''b'']
     = Error [Failed_to_open_output_movie]"
  by (simp add: cli_defs scenario_def)

theorem no_input_or_no_output_ends_before_muxing_witness:
  "filter is_output_flag (drop 1 [''remuxer'', ''-i'', ''a'', ''-i'', ''b'']) = [] \<and>
   exit_status (main_prepare (sample_library scenario) [''remuxer'', ''-i'', ''a'', ''-i'', ''b''])
     = Some (- 1)"
proof -
  have f: "filter is_output_flag (drop 1 [''remuxer'', ''-i'', ''a'', ''-i'', ''b'']) = []"
    by (simp add: is_output_flag_def strcasecmp_eq_def tolower_def)
  from no_input_or_no_output_ends_before_muxing [of "[''remuxer'', ''-i'', ''a'', ''-i'', ''b'']" "sample_library scenario"] f
  have "exit_status (main_prepare (sample_library scenario) [''remuxer'', ''-i'', ''a'', ''-i'', ''b'']) = Some (- 1) \<or>
     exit_status (main_prepare (sample_library scenario) [''remuxer'', ''-i'', ''a'', ''-i'', ''b'']) = Some 0"
    by blast
  then have "exit_status (main_prepare (sample_library scenario) [''remuxer'', ''-i'', ''a'', ''-i'', ''b'']) = Some (- 1)"
    by (simp add: prepare_no_output)
  with f show ?thesis by simp
qed

text \<open>
  Claim C9, the part that fails. A second \<^verbatim>\<open>-o\<close> is no error: line 314 opens the file
  named and overwrites \<^verbatim>\<open>io->output->root\<close>, and \<^verbatim>\<open>main\<close> reaches the muxing loop as it
  does with one output. And a request for help with at least four arguments returns 0
  with no input and no output.
\<close>

theorem two_outputs_counterexample:
  "main_prepare (sample_library scenario)
     [''remuxer'', ''-i'', ''a'', ''-i'', ''b'', ''-o'', ''x'', ''-o'', ''y'']
     = Muxing (sample_io scenario) \<and>
   main_prepare (sample_library scenario) [''remuxer'', ''-i'', ''a'', ''-i'', ''b'', ''-o'', ''y'']
     = Muxing (sample_io scenario) \<and>
   length (filter is_output_flag
     (drop 1 [''remuxer'', ''-i'', ''a'', ''-i'', ''b'', ''-o'', ''x'', ''-o'', ''y''])) = 2 \<and>
   exit_status (main_prepare (sample_library scenario) [''remuxer'', ''-h'', ''x'', ''y'', ''z''])
     = Some 0"
  by (simp add: cli_defs scenario_def)

subsection \<open>Track options\<close>

text \<open>
  Claim C8. For one input of three tracks, whatever their alternate groups and
  languages: the option text \<^verbatim>\<open>2:alternate-group=1\<close> sets the alternate group of track
  2 to 1 and leaves the rest as it is; \<^verbatim>\<open>5:language=jpn\<close> fails with the message of an
  invalid track number, \<^verbatim>\<open>2:foo=1\<close> with that of an unknown option, \<^verbatim>\<open>2::x=1\<close> with
  that of multiple colons. And whenever \<^verbatim>\<open>parse_track_option\<close> fails on what
  \<^verbatim>\<open>parse_cli_option\<close> has gathered from the command line, \<^verbatim>\<open>main\<close> prints its message
  and those of lines 339 and 375 and returns \<open>-1\<close> before the muxing loop.
\<close>

theorem track_option_examples_and_abort:
  "parse_track_option lib (requested ''2:alternate-group=1'' [(a1, l1), (a2, l2), (a3, l3)]) =
     Inr ((requested ''2:alternate-group=1'' [(a1, l1), (a2, l2), (a3, l3)])
       \<lparr>track_option :=
          [[\<lparr>raw_track_option = Some ''2:alternate-group=1'', alternate_group = a1, ISO_language = l1\<rparr>,
            \<lparr>raw_track_option = None, alternate_group = 1, ISO_language = l2\<rparr>,
            \<lparr>raw_track_option = None, alternate_group = a3, ISO_language = l3\<rparr>]]\<rparr>) \<and>
   parse_track_option lib (requested ''5:language=jpn'' [(a1, l1), (a2, l2), (a3, l3)]) =
     Inl (Invalid_track_number 5) \<and>
   parse_track_option lib (requested ''2:foo=1'' [(a1, l1), (a2, l2), (a3, l3)]) =
     Inl (Unknown_track_option ''foo=1'') \<and>
   parse_track_option lib (requested ''2::x=1'' [(a1, l1), (a2, l2), (a3, l3)]) =
     Inl (Multiple_colons ''2::x=1'') \<and>
   (5 \<le> length argv \<and> \<not> is_help_flag (argv ! 1) \<and>
    gather_cli lib argv (initial_io (length (filter is_input_flag (drop 1 argv)))) = Inr io \<and>
    parse_track_option lib io = Inl e \<longrightarrow>
    main_prepare lib argv =
      Error [e, Failed_to_parse_track_options, Failed_to_parse_command_line_options])"
proof (intro conjI impI)
  show "5 \<le> length argv \<and> \<not> is_help_flag (argv ! 1) \<and>
    gather_cli lib argv (initial_io (length (filter is_input_flag (drop 1 argv)))) = Inr io \<and>
    parse_track_option lib io = Inl e \<Longrightarrow>
    main_prepare lib argv =
      Error [e, Failed_to_parse_track_options, Failed_to_parse_command_line_options]"
    using prepare_track_option_failure [of argv lib io e] by blast
qed (simp_all add: option_defs upt_conv_Cons)

lemma three_gathered:
  "(case gather_cli (sample_library three) [''remuxer'', ''-i'', ''a?5:language=jpn'', ''-o'', ''out'']
           (initial_io (length (filter is_input_flag
              (drop 1 [''remuxer'', ''-i'', ''a?5:language=jpn'', ''-o'', ''out''])))) of
      Inl es \<Rightarrow> False
    | Inr io \<Rightarrow> parse_track_option (sample_library three) io = Inl (Invalid_track_number 5))"
  by (simp add: cli_defs parse_track_entry_def strchr_def strrchr_def after_char_def atoi_def
      isspace_def isdigit_def to_uint32_def to_int16_def three_def upt_conv_Cons)

theorem track_option_examples_and_abort_witness:
  "5 \<le> length [''remuxer'', ''-i'', ''a?5:language=jpn'', ''-o'', ''out''] \<and>
   \<not> is_help_flag ([''remuxer'', ''-i'', ''a?5:language=jpn'', ''-o'', ''out''] ! 1) \<and>
   (\<exists>io. gather_cli (sample_library three) [''remuxer'', ''-i'', ''a?5:language=jpn'', ''-o'', ''out'']
           (initial_io (length (filter is_input_flag
              (drop 1 [''remuxer'', ''-i'', ''a?5:language=jpn'', ''-o'', ''out''])))) = Inr io \<and>
         parse_track_option (sample_library three) io = Inl (Invalid_track_number 5)) \<and>
   main_prepare (sample_library three) [''remuxer'', ''-i'', ''a?5:language=jpn'', ''-o'', ''out''] =
     Error [Invalid_track_number 5, Failed_to_parse_track_options,
            Failed_to_parse_command_line_options]"
proof -
  let ?argv = "[''remuxer'', ''-i'', ''a?5:language=jpn'', ''-o'', ''out'']"
  let ?lib = "sample_library three"
  have a: "5 \<le> length ?argv" by simp
  have b: "\<not> is_help_flag (?argv ! 1)"
    by (simp add: is_help_flag_def strcasecmp_eq_def tolower_def)
  from three_gathered obtain io where
    io: "gather_cli ?lib ?argv (initial_io (length (filter is_input_flag (drop 1 ?argv)))) = Inr io"
      "parse_track_option ?lib io = Inl (Invalid_track_number 5)"
    by (cases "gather_cli ?lib ?argv (initial_io (length (filter is_input_flag (drop 1 ?argv))))")
       simp_all
  from track_option_examples_and_abort [of ?lib _ _ _ _ _ _ ?argv io "Invalid_track_number 5"] a b io
  have "main_prepare ?lib ?argv =
     Error [Invalid_track_number 5, Failed_to_parse_track_options, Failed_to_parse_command_line_options]"
    by blast
  with a b io show ?thesis by - (intro conjI exI [of _ io]; assumption)
qed

subsection \<open>Recognising an option\<close>

lemma strstr_found: "strstr (a @ needle @ b) needle \<noteq> None"
proof (induction a)
  case Nil
  have "strstr (needle @ b) needle = Some 0"
  proof (cases "needle @ b")
    case Nil
    then show ?thesis by simp
  next
    case (Cons c cs)
    have "take (length needle) (needle @ b) = needle" by simp
    then have "take (length needle) (c # cs) = needle" by (simp only: Cons)
    then have "strstr (c # cs) needle = Some 0" by simp
    then show ?thesis by (simp only: Cons)
  qed
  then show ?case by simp
next
  case (Cons h a)
  then show ?case by simp
qed

lemma strstr_inside: "strstr s needle = Some k \<Longrightarrow> \<exists>a b. s = a @ needle @ b"
proof (induction s arbitrary: k)
  case Nil
  then show ?case by (simp split: if_splits)
next
  case (Cons c cs)
  show ?case
  proof (cases "take (length needle) (c # cs) = needle")
    case True
    then have "c # cs = [] @ needle @ drop (length needle) (c # cs)"
      using append_take_drop_id [of "length needle" "c # cs"] by simp
    then show ?thesis by blast
  next
    case False
    with Cons.prems obtain k' where "strstr cs needle = Some k'" by auto
    from Cons.IH [OF this] obtain a b where "cs = a @ needle @ b" by blast
    then have "c # cs = (c # a) @ needle @ b" by simp
    then show ?thesis by blast
  qed
qed

lemma split_at_unique:
  "c \<notin> set x \<Longrightarrow> c \<notin> set q \<Longrightarrow> x @ c # q = y @ c # b \<Longrightarrow> x = y"
proof (induction x arbitrary: y)
  case Nil
  then show ?case by (cases y) auto
next
  case (Cons h x)
  then show ?case by (cases y) auto
qed

lemma one_equal_sign:
  assumes "CHR ''='' \<notin> set x" "CHR ''='' \<notin> set q"
  shows "strchr (x @ CHR ''='' # q) CHR ''='' = Some (length x)"
    and "strrchr (x @ CHR ''='' # q) CHR ''='' = Some (length x)"
    and "after_char (x @ CHR ''='' # q) CHR ''='' = Some q"
proof -
  have t: "takeWhile (\<lambda>c. c \<noteq> CHR ''='') (x @ CHR ''='' # q) = x"
    using assms(1) by (auto simp: takeWhile_tail)
  then show 1: "strchr (x @ CHR ''='' # q) CHR ''='' = Some (length x)"
    by (simp add: strchr_def)
  have "takeWhile (\<lambda>c. c \<noteq> CHR ''='') (rev q @ CHR ''='' # rev x) = rev q"
    using assms(2) by (auto simp: takeWhile_tail)
  then show "strrchr (x @ CHR ''='' # q) CHR ''='' = Some (length x)"
    by (simp add: strrchr_def)
  from 1 show "after_char (x @ CHR ''='' # q) CHR ''='' = Some q"
    by (simp add: after_char_def)
qed

lemma one_token:
  assumes "CHR '','' \<notin> set s" "s \<noteq> []"
  shows "strtok s '','' = (Some s, [])"
proof -
  have 1: "dropWhile (\<lambda>c. c = CHR '','') s = s"
    using assms by (cases s) auto
  have 2: "takeWhile (\<lambda>c. c \<noteq> CHR '','') s = s" "dropWhile (\<lambda>c. c \<noteq> CHR '','') s = []"
    using assms(1) by (auto simp: dropWhile_eq_Nil_conv)
  show ?thesis using assms(2) by (simp add: strtok_def 1 2)
qed

lemma no_token: "strtok [] delim = (None, [])"
  by (simp add: strtok_def)

lemma no_other_key:
  assumes "CHR ''='' \<notin> set pre" "CHR ''='' \<notin> set post"
  shows "strstr (pre @ ''language='' @ post) ''alternate-group='' = None"
proof (rule ccontr)
  assume "strstr (pre @ ''language='' @ post) ''alternate-group='' \<noteq> None"
  then obtain k where "strstr (pre @ ''language='' @ post) ''alternate-group='' = Some k" by blast
  from strstr_inside [OF this] obtain a b where
    "pre @ ''language='' @ post = a @ ''alternate-group='' @ b" by blast
  then have "(pre @ ''language'') @ CHR ''='' # post = (a @ ''alternate-group'') @ CHR ''='' # b"
    by simp
  from split_at_unique [OF _ assms(2) this] assms(1)
  have "pre @ ''language'' = a @ ''alternate-group''" by simp
  then have "last (pre @ ''language'') = last (a @ ''alternate-group'')" by simp
  then show False by simp
qed

lemma parse_one_option:
  assumes "strtok t '','' = (Some t, [])" "strchr t CHR ''='' = strrchr t CHR ''=''"
    and "after_char t CHR ''='' = Some q" "n < length opts"
  shows "strstr t ''alternate-group='' \<noteq> None \<Longrightarrow>
           parse_options lib t n opts =
             Inr (opts[n := (opts ! n)\<lparr>alternate_group := to_int16 (atoi q)\<rparr>])"
    and "strstr t ''alternate-group='' = None \<Longrightarrow> strstr t ''language='' \<noteq> None \<Longrightarrow>
           parse_options lib t n opts =
             Inr (opts[n := (opts ! n)\<lparr>ISO_language := lsmash_pack_iso_language lib q\<rparr>])"
proof -
  have last: "parse_options lib [] n opts' = Inr opts'" for opts'
    by (subst parse_options.simps) (simp add: no_token del: parse_options.simps)
  show "parse_options lib t n opts =
      Inr (opts[n := (opts ! n)\<lparr>alternate_group := to_int16 (atoi q)\<rparr>])"
    if "strstr t ''alternate-group='' \<noteq> None"
    using that assms
    by (subst parse_options.simps) (simp add: last del: parse_options.simps)
  show "parse_options lib t n opts =
      Inr (opts[n := (opts ! n)\<lparr>ISO_language := lsmash_pack_iso_language lib q\<rparr>])"
    if "strstr t ''alternate-group='' = None" "strstr t ''language='' \<noteq> None"
    using that assms
    by (subst parse_options.simps) (simp add: last del: parse_options.simps)
qed

text \<open>
  Claim C10, as the program has it. An option that holds \<^verbatim>\<open>alternate-group=\<close> after
  any text \<open>pre\<close> and has no other equal sign is accepted: the alternate group of the
  track becomes the number \<^verbatim>\<open>atoi\<close> reads in the text behind the equal sign, converted
  to \<^verbatim>\<open>int16_t\<close>. Likewise for \<^verbatim>\<open>language=\<close> and the language of the track.
\<close>

theorem option_key_anywhere_with_one_equal_sign:
  assumes "CHR ''='' \<notin> set pre" "CHR ''='' \<notin> set post"
    and "CHR '','' \<notin> set pre" "CHR '','' \<notin> set post" "n < length opts"
  shows "parse_options lib (pre @ ''alternate-group='' @ post) n opts =
           Inr (opts[n := (opts ! n)\<lparr>alternate_group := to_int16 (atoi post)\<rparr>]) \<and>
         parse_options lib (pre @ ''language='' @ post) n opts =
           Inr (opts[n := (opts ! n)\<lparr>ISO_language := lsmash_pack_iso_language lib post\<rparr>])"
proof
  define t where "t = pre @ ''alternate-group='' @ post"
  have s: "t = (pre @ ''alternate-group'') @ CHR ''='' # post" by (simp add: t_def)
  have e: "CHR ''='' \<notin> set (pre @ ''alternate-group'')" using assms(1) by simp
  have tok: "strtok t '','' = (Some t, [])"
    using assms(3,4) unfolding t_def by (intro one_token) simp_all
  note eq = one_equal_sign [OF e assms(2), folded s]
  have k: "strstr t ''alternate-group='' \<noteq> None" unfolding t_def by (rule strstr_found)
  from parse_one_option(1) [OF tok _ eq(3) assms(5) k, of lib] eq(1,2)
  show "parse_options lib (pre @ ''alternate-group='' @ post) n opts =
      Inr (opts[n := (opts ! n)\<lparr>alternate_group := to_int16 (atoi post)\<rparr>])"
    unfolding t_def by simp
next
  define t where "t = pre @ ''language='' @ post"
  have s: "t = (pre @ ''language'') @ CHR ''='' # post" by (simp add: t_def)
  have e: "CHR ''='' \<notin> set (pre @ ''language'')" using assms(1) by simp
  have tok: "strtok t '','' = (Some t, [])"
    using assms(3,4) unfolding t_def by (intro one_token) simp_all
  note eq = one_equal_sign [OF e assms(2), folded s]
  have k: "strstr t ''language='' \<noteq> None" unfolding t_def by (rule strstr_found)
  have nk: "strstr t ''alternate-group='' = None" unfolding t_def by (rule no_other_key [OF assms(1,2)])
  from parse_one_option(2) [OF tok _ eq(3) assms(5) nk k, of lib] eq(1,2)
  show "parse_options lib (pre @ ''language='' @ post) n opts =
      Inr (opts[n := (opts ! n)\<lparr>ISO_language := lsmash_pack_iso_language lib post\<rparr>])"
    unfolding t_def by simp
qed

theorem option_key_anywhere_with_one_equal_sign_witness:
  "CHR ''='' \<notin> set ''xx'' \<and> CHR ''='' \<notin> set ''5'' \<and> CHR '','' \<notin> set ''xx'' \<and> CHR '','' \<notin> set ''5'' \<and>
   (1::nat) < length [zero_option, zero_option, zero_option] \<and>
   parse_options (sample_library three) ''xxalternate-group=5'' 1
       [zero_option, zero_option, zero_option] =
     Inr [zero_option, zero_option\<lparr>alternate_group := 5\<rparr>, zero_option] \<and>
   parse_options (sample_library three) ''xxlanguage=5'' 1
       [zero_option, zero_option, zero_option] =
     Inr [zero_option, zero_option\<lparr>ISO_language := 1\<rparr>, zero_option]"
  using option_key_anywhere_with_one_equal_sign
    [of "''xx''" "''5''" 1 "[zero_option, zero_option, zero_option]" "sample_library three"]
  by (simp add: to_int16_def atoi_def isspace_def isdigit_def sample_library_def)

text \<open>
  Claim C10 fails for an option with a second equal sign: it holds the key, and line
  260 rejects it before the key is looked for. And the number stored is the 16-bit
  one, not the number read.
\<close>

theorem option_key_with_second_equal_sign_counterexample:
  "parse_options (sample_library three) ''x=alternate-group=1'' 0 [zero_option] =
     Inl (Multiple_equal_signs ''x=alternate-group=1'') \<and>
   strstr ''x=alternate-group=1'' ''alternate-group='' = Some 2 \<and>
   parse_options (sample_library three) ''alternate-group=40000'' 0 [zero_option] =
     Inr [zero_option\<lparr>alternate_group := - 25536\<rparr>]"
  by (simp add: strtok_def strchr_def strrchr_def after_char_def
      to_int16_def atoi_def isspace_def isdigit_def)

end
